theory Spec2Isabelle
  imports Complex_Main "HOL-Library.Word"
begin

section \<open>Data model of hachingRewrite.c\<close>

text \<open>
  The C struct \<^verbatim>\<open>AudioData\<close>: the decoded interleaved 16-bit samples, how many of
  them are valid, the sample rate and the channel count.
\<close>

record AudioData =
  samples :: "16 word list"
  num_samples :: nat
  sample_rate :: int
  channels :: int

text \<open>
  What C leaves undefined, or what ends a function early: an access outside an allocated
  block, a failed reallocation, a loop that never ends, a conversion of a value that
  does not fit, a signed addition that leaves the range of \<^verbatim>\<open>int\<close>.
\<close>

datatype fault = OutOfBounds | OutOfMemory | NonTermination | UndefinedConversion | IntOverflow

text \<open>The largest \<^verbatim>\<open>int\<close>.\<close>

definition INT_MAX :: nat where
  "INT_MAX = 2147483647"

section \<open>Values of type double and float\<close>

text \<open>
  IEEE 754 binary arithmetic, rounding to nearest, ties to the even significand.
  \<open>round_to p emin x\<close> is the value with a significand of \<open>p\<close> bits and an exponent of
  at least \<open>emin\<close> (below it, the spacing of the subnormal numbers) that is nearest to
  \<open>x\<close>; the largest exponent is checked where a result is made.
\<close>

definition round_ties_even :: "real \<Rightarrow> int" where
  "round_ties_even q =
     (let f = \<lfloor>q\<rfloor>; d = q - of_int f
      in if d < 1 / 2 then f else if 1 / 2 < d then f + 1 else if even f then f else f + 1)"

definition round_to :: "nat \<Rightarrow> int \<Rightarrow> real \<Rightarrow> real" where
  "round_to p emin x =
     (if x = 0 then 0
      else let e = max \<lfloor>log 2 \<bar>x\<bar>\<rfloor> emin - (int p - 1)
           in of_int (round_ties_even (x / 2 powr of_int e)) * 2 powr of_int e)"

definition to_double :: "real \<Rightarrow> real" where
  "to_double = round_to 53 (- 1022)"

definition to_float :: "real \<Rightarrow> real" where
  "to_float = round_to 24 (- 126)"

definition DBL_MAX :: real where
  "DBL_MAX = (2 ^ 53 - 1) * 2 ^ 971"

definition FLT_MAX :: real where
  "FLT_MAX = (2 ^ 24 - 1) * 2 ^ 104"

text \<open>
  A \<^verbatim>\<open>double\<close> or \<^verbatim>\<open>float\<close> value: a finite number, or one of the infinities and
  NaNs, which this development does not tell apart.
\<close>

datatype double = Finite real | NotFinite

text \<open>The double, and the float, that an operation with the exact result \<open>r\<close> delivers.\<close>

definition dbl :: "real \<Rightarrow> double" where
  "dbl r = (if \<bar>to_double r\<bar> \<le> DBL_MAX then Finite (to_double r) else NotFinite)"

definition flt :: "real \<Rightarrow> double" where
  "flt r = (if \<bar>to_float r\<bar> \<le> FLT_MAX then Finite (to_float r) else NotFinite)"

fun dadd :: "double \<Rightarrow> double \<Rightarrow> double" where
  "dadd (Finite x) (Finite y) = dbl (x + y)"
| "dadd _ _ = NotFinite"

fun dsub :: "double \<Rightarrow> double \<Rightarrow> double" where
  "dsub (Finite x) (Finite y) = dbl (x - y)"
| "dsub _ _ = NotFinite"

fun dmul :: "double \<Rightarrow> double \<Rightarrow> double" where
  "dmul (Finite x) (Finite y) = dbl (x * y)"
| "dmul _ _ = NotFinite"

fun dneg :: "double \<Rightarrow> double" where
  "dneg (Finite x) = Finite (- x)"
| "dneg NotFinite = NotFinite"

text \<open>
  Division by a finite divisor \<open>y\<close>, the only kind the program has: its divisors are
  converted integers.  Dividing by zero gives an infinity or a NaN.
\<close>

fun ddiv :: "double \<Rightarrow> real \<Rightarrow> double" where
  "ddiv (Finite x) y = (if y = 0 then NotFinite else dbl (x / y))"
| "ddiv NotFinite y = NotFinite"

text \<open>\<^verbatim>\<open>sqrt\<close>: correctly rounded, a NaN for a negative argument.\<close>

fun dsqrt :: "double \<Rightarrow> double" where
  "dsqrt (Finite x) = (if x < 0 then NotFinite else dbl (sqrt x))"
| "dsqrt NotFinite = NotFinite"

text \<open>Narrowing a double to \<^verbatim>\<open>float\<close>.\<close>

fun narrow :: "double \<Rightarrow> double" where
  "narrow (Finite x) = flt x"
| "narrow NotFinite = NotFinite"

text \<open>
  A call of a function of the mathematical library, which is not part of the
  repository: \<open>f\<close> gives the value the library returns for a finite argument; for an
  argument that is not finite \<^verbatim>\<open>cos\<close> and \<^verbatim>\<open>sin\<close> return a NaN.
\<close>

fun libm_call :: "(real \<Rightarrow> real) \<Rightarrow> double \<Rightarrow> double" where
  "libm_call f (Finite x) = dbl (f x)"
| "libm_call f NotFinite = NotFinite"

section \<open>Channel extraction (main, lines 156-168)\<close>

text \<open>
  \<^verbatim>\<open>for (int i = 0; i < audio_data.num_samples / 2; i++)
     leftChanelSamples[i] = audio_data.samples[i * 2];\<close>
  The divisor and the stride are the literal 2; the \<^verbatim>\<open>channels\<close> field is not read.
  A read past the decoded samples is a fault.
\<close>

definition leftChanelSamples :: "AudioData \<Rightarrow> fault + real list" where
  "leftChanelSamples a =
     (if list_all (\<lambda>i. i * 2 < length (samples a)) [0..<num_samples a div 2]
      then Inr (map (\<lambda>i. real_of_int (sint (samples a ! (i * 2)))) [0..<num_samples a div 2])
      else Inl OutOfBounds)"

section \<open>The hop loop (main, lines 170-217)\<close>

text \<open>\<^verbatim>\<open>int hopsize = 159840;\<close>\<close>

definition hopsize :: nat where
  "hopsize = 159840"

text \<open>
  The state the loop works on: the FFTW input and output blocks, the flat result array
  (a cell is \<open>None\<close> until it is written), and a record of the calls of
  \<^verbatim>\<open>fftw_execute\<close>, oldest first: the offset \<open>i\<close> and the contents of \<open>in\<close> at the
  call.
\<close>

record hop_state =
  in_buf :: "real list"
  out_buf :: "complex list"
  freqArr :: "double option list"
  executed :: "(nat \<times> real list) list"

text \<open>
  \<^verbatim>\<open>sqrt(out[j][0] * out[j][0] + out[j][1] * out[j][1])\<close> in double arithmetic, for
  a bin with finite parts.
\<close>

definition magnitude :: "complex \<Rightarrow> double" where
  "magnitude z =
     dsqrt (dadd (dmul (Finite (Re z)) (Finite (Re z))) (dmul (Finite (Im z)) (Finite (Im z))))"

text \<open>
  The inner loop \<^verbatim>\<open>for (j = 0; j < hopsize / 2 + 1; j++) freqArr[i + j] = ...\<close>,
  run over the list of its indices \<open>j\<close>.  A write outside \<open>freqArr\<close> or a read
  outside \<open>out\<close> is a fault.
\<close>

fun write_mags :: "complex list \<Rightarrow> nat \<Rightarrow> nat list \<Rightarrow> double option list \<Rightarrow> fault + double option list" where
  "write_mags out i [] fa = Inr fa"
| "write_mags out i (j # js) fa =
     (if i + j < length fa \<and> j < length out
      then write_mags out i js (fa[i + j := Some (magnitude (out ! j))])
      else Inl OutOfBounds)"

text \<open>
  \<^verbatim>\<open>for (int j = 0; j < hopsize; j++) in[j] = leftChanelSamples[i + j];\<close>
  the window copied into \<open>in\<close> at offset \<open>i\<close>.
\<close>

definition hop_window :: "nat \<Rightarrow> real list \<Rightarrow> nat \<Rightarrow> real list" where
  "hop_window h left i = map (\<lambda>j. left ! (i + j)) [0..<h]"

text \<open>
  One iteration at offset \<open>i\<close> with hop length \<open>h\<close>: copy the window into \<open>in\<close>
  (a fault if it reaches past the samples), run the planned transform (the FFTW
  library, a parameter \<open>fft\<close> here, called on the contents of \<open>in\<close>), write the
  magnitudes.
\<close>

definition hop_body :: "(real list \<Rightarrow> complex list) \<Rightarrow> nat \<Rightarrow> real list \<Rightarrow> nat \<Rightarrow> hop_state \<Rightarrow> fault + hop_state" where
  "hop_body fft h left i st =
     (if i + h \<le> length left then
        (let inb = hop_window h left i;
             outb = fft inb
         in case write_mags outb i [0..<h div 2 + 1] (freqArr st) of
              Inl e \<Rightarrow> Inl e
            | Inr fa \<Rightarrow> Inr \<lparr>in_buf = inb, out_buf = outb, freqArr = fa,
                             executed = executed st @ [(i, inb)]\<rparr>)
      else Inl OutOfBounds)"

text \<open>
  \<^verbatim>\<open>for (int i = 0; i + hopsize <= audio_data.num_samples / 2; i += hopsize)\<close>
  The sum \<open>i + hopsize\<close> is an \<^verbatim>\<open>int\<close>: when it exceeds \<open>INT_MAX\<close> the behaviour
  is undefined.  With a hop length of 0 the loop never ends.
\<close>

function hop_loop :: "(real list \<Rightarrow> complex list) \<Rightarrow> nat \<Rightarrow> nat \<Rightarrow> real list \<Rightarrow> nat \<Rightarrow> hop_state \<Rightarrow> fault + hop_state" where
  "hop_loop fft h n2 left i st =
     (if h = 0 then Inl NonTermination
      else if INT_MAX < i + h then Inl IntOverflow
      else if i + h \<le> n2 then
        (case hop_body fft h left i st of
           Inl e \<Rightarrow> Inl e
         | Inr st' \<Rightarrow> hop_loop fft h n2 left (i + h) st')
      else Inr st)"
  by pat_completeness auto
termination
  by (relation "measure (\<lambda>(fft, h, n2, left, i, st). Suc n2 - i)") auto

declare hop_loop.simps [simp del]

text \<open>
  What \<^verbatim>\<open>fftw_execute\<close> computes for a plan made by \<^verbatim>\<open>fftw_plan_dft_r2c_1d\<close>,
  after the FFTW manual and up to rounding: the unnormalised forward transform of
  \<open>n\<close> reals, of which the bins \<open>0 .. n div 2\<close> are stored.
\<close>

definition dft_r2c :: "real list \<Rightarrow> complex list" where
  "dft_r2c xs =
     map (\<lambda>k. \<Sum>j<length xs. of_real (xs ! j) * cis (- 2 * pi * real j * real k / real (length xs)))
       [0..<length xs div 2 + 1]"

section \<open>extract_mp3_samples\<close>

text \<open>
  The block behind \<^verbatim>\<open>audio_data->samples\<close> (a cell is \<open>None\<close> until it is
  written), its capacity in samples, and \<^verbatim>\<open>total_samples\<close>.
\<close>

record pcm_state =
  buf :: "16 word option list"
  capacity :: nat
  total_samples :: nat

text \<open>
  \<^verbatim>\<open>size_t\<close> arithmetic is modulo \<open>2 ^ 64\<close>.
\<close>

definition size_t :: "int \<Rightarrow> nat" where
  "size_t v = nat (v mod 2 ^ 64)"

text \<open>
  \<^verbatim>\<open>size_t capacity = rate * channels * 2;\<close>
  \<^verbatim>\<open>audio_data->samples = malloc(capacity * sizeof(short));\<close>
  The product is computed in \<^verbatim>\<open>long\<close> and converted; the block that a successful
  \<^verbatim>\<open>malloc\<close> returns holds as many samples as the requested bytes allow.
\<close>

definition pcm_init :: "int \<Rightarrow> int \<Rightarrow> pcm_state" where
  "pcm_init rate chans =
     \<lparr>buf = replicate (size_t (int (size_t (rate * chans * 2)) * 2) div 2) None,
      capacity = size_t (rate * chans * 2), total_samples = 0\<rparr>"

text \<open>
  \<^verbatim>\<open>if (total_samples + samples_in_buffer > capacity) { capacity *= 2; realloc ... }\<close>
  \<open>realloc_ok b\<close> says whether a reallocation to \<open>b\<close> bytes succeeds; the new block
  keeps the old contents, as far as it reaches.
\<close>

definition grow :: "(nat \<Rightarrow> bool) \<Rightarrow> pcm_state \<Rightarrow> nat \<Rightarrow> fault + pcm_state" where
  "grow realloc_ok st n =
     (if size_t (int (total_samples st) + int n) > capacity st then
        (let c = size_t (int (capacity st) * 2);
             bytes = size_t (int c * 2)
         in if realloc_ok bytes
            then Inr (st\<lparr>capacity := c,
                        buf := take (bytes div 2) (buf st)
                               @ replicate (bytes div 2 - length (buf st)) None\<rparr>)
            else Inl OutOfMemory)
      else Inr st)"

text \<open>
  \<^verbatim>\<open>for (i = 0; i < samples_in_buffer; i++) samples[total_samples + i] = block[i];\<close>
  run over the list of its indices.  A write outside the block is a fault.
\<close>

fun copy_block :: "16 word list \<Rightarrow> nat \<Rightarrow> nat list \<Rightarrow> 16 word option list \<Rightarrow> fault + 16 word option list" where
  "copy_block blk t [] b = Inr b"
| "copy_block blk t (i # is) b =
     (if size_t (int t + int i) < length b \<and> i < length blk
      then copy_block blk t is (b[size_t (int t + int i) := Some (blk ! i)])
      else Inl OutOfBounds)"

text \<open>
  One pass of the \<^verbatim>\<open>while (mpg123_read(...) == MPG123_OK)\<close> body on a decoded block,
  ending with \<^verbatim>\<open>total_samples += samples_in_buffer;\<close>
\<close>

definition append_block :: "(nat \<Rightarrow> bool) \<Rightarrow> pcm_state \<Rightarrow> 16 word list \<Rightarrow> fault + pcm_state" where
  "append_block realloc_ok st blk =
     (case grow realloc_ok st (length blk) of
        Inl e \<Rightarrow> Inl e
      | Inr st1 \<Rightarrow>
         (case copy_block blk (total_samples st1) [0..<length blk] (buf st1) of
            Inl e \<Rightarrow> Inl e
          | Inr b \<Rightarrow>
              Inr (st1\<lparr>buf := b,
                       total_samples := size_t (int (total_samples st1) + int (length blk))\<rparr>)))"

text \<open>The whole read loop over the blocks the decoder delivers.\<close>

fun read_all :: "(nat \<Rightarrow> bool) \<Rightarrow> pcm_state \<Rightarrow> 16 word list list \<Rightarrow> fault + pcm_state" where
  "read_all realloc_ok st [] = Inr st"
| "read_all realloc_ok st (blk # blks) =
     (case append_block realloc_ok st blk of
        Inl e \<Rightarrow> Inl e
      | Inr st' \<Rightarrow> read_all realloc_ok st' blks)"

text \<open>
  What the mpg123 library and the allocator answer during one call of
  \<^verbatim>\<open>extract_mp3_samples\<close>: whether \<^verbatim>\<open>mpg123_init\<close>, \<^verbatim>\<open>mpg123_new\<close> and
  \<^verbatim>\<open>mpg123_open\<close> succeed, the rate and channel count \<^verbatim>\<open>mpg123_getformat\<close> reports
  (\<open>None\<close> when it fails), the size \<^verbatim>\<open>mpg123_outblock\<close> returns, whether the two
  \<^verbatim>\<open>malloc\<close> calls and each \<^verbatim>\<open>realloc\<close> (by the bytes it asks for) succeed, and
  the samples of every \<^verbatim>\<open>mpg123_read\<close> call that returns \<^verbatim>\<open>MPG123_OK\<close>, in order
  (the first \<open>done / 2\<close> shorts of the buffer).
\<close>

record decoder =
  init_ok :: bool
  new_ok :: bool
  open_ok :: bool
  getformat :: "(int \<times> int) option"
  outblock :: nat
  malloc_buffer_ok :: bool
  malloc_samples_ok :: bool
  realloc_ok :: "nat \<Rightarrow> bool"
  reads :: "16 word list list"

text \<open>
  The lines the program prints, those for the error stream with their text.  A duration
  or time line carries the \<^verbatim>\<open>double\<close> handed to \<^verbatim>\<open>printf\<close>.
\<close>

datatype printed =
    Usage
  | Stderr string
  | SampleRate int
  | Channels int
  | ExtractedSamples nat
  | Duration double
  | LoopTook double

text \<open>The samples the read loop has stored: the first \<open>total_samples\<close> cells.\<close>

definition decoded :: "pcm_state \<Rightarrow> 16 word list" where
  "decoded st = List.map_filter (\<lambda>c. c) (take (total_samples st) (buf st))"

text \<open>
  \<^verbatim>\<open>extract_mp3_samples\<close>: what it prints, and the \<^verbatim>\<open>AudioData\<close> it fills when it
  returns 0 (\<open>None\<close> when it returns -1).  The products \<open>rate * channels\<close> and
  \<open>rate * channels * 2\<close> are computed in \<^verbatim>\<open>long\<close> (64 bits): outside its range the
  behaviour is undefined.
\<close>

definition extract_mp3_samples :: "decoder \<Rightarrow> fault + printed list \<times> AudioData option" where
  "extract_mp3_samples dec =
     (if \<not> init_ok dec then Inr ([Stderr ''Failed to initialize mpg123''], None)
      else if \<not> new_ok dec then Inr ([Stderr ''Unable to create mpg123 handle''], None)
      else if \<not> open_ok dec then Inr ([Stderr ''Unable to open file''], None)
      else case getformat dec of
        None \<Rightarrow> Inr ([Stderr ''Unable to get format information''], None)
      | Some (rate, chans) \<Rightarrow>
          if \<not> malloc_buffer_ok dec then Inr ([Stderr ''Unable to allocate buffer''], None)
          else if rate * chans < - (2 ^ 63) \<or> 2 ^ 63 \<le> rate * chans
                  \<or> rate * chans * 2 < - (2 ^ 63) \<or> 2 ^ 63 \<le> rate * chans * 2
            then Inl IntOverflow
          else if \<not> malloc_samples_ok dec
            then Inr ([SampleRate rate, Channels chans,
                       Stderr ''Unable to allocate sample buffer''], None)
          else
            (case read_all (realloc_ok dec) (pcm_init rate chans) (reads dec) of
               Inl OutOfMemory \<Rightarrow>
                 Inr ([SampleRate rate, Channels chans,
                       Stderr ''Unable to reallocate sample buffer''], None)
             | Inl e \<Rightarrow> Inl e
             | Inr st \<Rightarrow>
                 Inr ([SampleRate rate, Channels chans],
                      Some \<lparr>samples = decoded st, num_samples = total_samples st,
                            sample_rate = rate, channels = chans\<rparr>)))"

section \<open>main\<close>

text \<open>
  The calls whose result main checks, as the run's environment: whether each allocation
  and the plan creation succeed, what the two \<^verbatim>\<open>clock_gettime\<close> calls return
  (\<open>None\<close> for a failure, otherwise seconds and nanoseconds), and the contents the fresh
  \<open>in\<close> and \<open>out\<close> blocks happen to have.

  Line 186 obtains \<open>freqArr\<close> from a function \<^verbatim>\<open>alloc\<close>, which neither the
  repository nor a header it includes declares.  It is taken here as an allocator like
  \<^verbatim>\<open>malloc\<close>, which is how the line uses it: \<open>alloc_freq_ok\<close> says whether it returns
  a block of the requested \<open>num_samples / 2\<close> doubles.
\<close>

record env =
  malloc_left_ok :: bool
  clock_start :: "(int \<times> int) option"
  malloc_in_ok :: bool
  alloc_freq_ok :: bool
  fftw_malloc_ok :: bool
  plan_ok :: bool
  clock_end :: "(int \<times> int) option"
  in_fresh :: "real list"
  out_fresh :: "complex list"

text \<open>
  \<^verbatim>\<open>(double)audio_data.num_samples / audio_data.channels / audio_data.sample_rate\<close>
\<close>

definition duration :: "AudioData \<Rightarrow> double" where
  "duration a =
     ddiv (ddiv (dbl (real (num_samples a))) (to_double (real_of_int (channels a))))
       (to_double (real_of_int (sample_rate a)))"

text \<open>
  \<^verbatim>\<open>(t_end.tv_sec - t_start.tv_sec) + (t_end.tv_nsec - t_start.tv_nsec) / 1e9\<close>
\<close>

definition elapsed :: "int \<times> int \<Rightarrow> int \<times> int \<Rightarrow> double" where
  "elapsed t0 t1 =
     dadd (dbl (real_of_int (fst t1 - fst t0)))
       (ddiv (dbl (real_of_int (snd t1 - snd t0))) 1000000000)"

text \<open>
  main from its first line, given \<^verbatim>\<open>argc\<close>.  The result is what was printed, the
  exit status, and the loop state when the loop was reached.
\<close>

definition main :: "(real list \<Rightarrow> complex list) \<Rightarrow> decoder \<Rightarrow> env \<Rightarrow> int
    \<Rightarrow> fault + (printed list \<times> int \<times> hop_state option)" where
  "main fft dec ev argc =
     (if argc \<noteq> 2 then Inr ([Usage], 1, None)
      else case extract_mp3_samples dec of
        Inl e \<Rightarrow> Inl e
      | Inr (pr, None) \<Rightarrow> Inr (pr @ [Stderr ''Failed to extract samples''], 1, None)
      | Inr (pr, Some a) \<Rightarrow>
         (let hdr = pr @ [ExtractedSamples (num_samples a), Duration (duration a)]
          in if \<not> malloc_left_ok ev
             then Inr (hdr @ [Stderr ''Error: Failed to allocate memory for leftChannelSamples.''],
                       1, None)
          else case leftChanelSamples a of
            Inl e \<Rightarrow> Inl e
          | Inr left \<Rightarrow>
             (case clock_start ev of
                None \<Rightarrow> Inr (hdr @ [Stderr ''clock_gettime''], 1, None)
              | Some t0 \<Rightarrow>
                 if \<not> malloc_in_ok ev
                   then Inr (hdr @ [Stderr ''Error: Failed to allocate memory for in.''], 1, None)
                 else if \<not> alloc_freq_ok ev
                   then Inr (hdr @ [Stderr ''Error: Failed to allocate memory for freqArr.''],
                             1, None)
                 else if \<not> fftw_malloc_ok ev
                   then Inr (hdr @ [Stderr ''Error: Failed to allocate memory for out.''], 1, None)
                 else if \<not> plan_ok ev
                   then Inr (hdr @ [Stderr ''Error: FFTW plan creation failed''], 1, None)
                 else
                   (case hop_loop fft hopsize (num_samples a div 2) left 0
                           \<lparr>in_buf = in_fresh ev, out_buf = out_fresh ev,
                            freqArr = replicate (num_samples a div 2) None, executed = []\<rparr> of
                      Inl e \<Rightarrow> Inl e
                    | Inr st \<Rightarrow>
                       (case clock_end ev of
                          None \<Rightarrow> Inr (hdr @ [Stderr ''clock_gettime''], 1, Some st)
                        | Some t1 \<Rightarrow> Inr (hdr @ [LoopTook (elapsed t0 t1)], 0, Some st))))))"

section \<open>hachingRewriteNoLibrary.c: complex numbers and the Bluestein setup\<close>

text \<open>\<^verbatim>\<open>#define PI 3.1415926535\<close>: the double nearest to the literal.\<close>

definition PI :: real where
  "PI = to_double (31415926535 / 10000000000)"

text \<open>The struct \<^verbatim>\<open>Complex\<close> with its two \<^verbatim>\<open>double\<close> fields.\<close>

record Complex_t =
  re :: double
  im :: double

definition add :: "Complex_t \<Rightarrow> Complex_t \<Rightarrow> Complex_t" where
  "add a b = \<lparr>re = dadd (re a) (re b), im = dadd (im a) (im b)\<rparr>"

definition sub :: "Complex_t \<Rightarrow> Complex_t \<Rightarrow> Complex_t" where
  "sub a b = \<lparr>re = dsub (re a) (re b), im = dsub (im a) (im b)\<rparr>"


definition getLength :: "Complex_t \<Rightarrow> double" where
  "getLength a = dsqrt (dadd (dmul (re a) (re a)) (dmul (im a) (im a)))"

text \<open>
  The functions \<^verbatim>\<open>cos\<close> and \<^verbatim>\<open>sin\<close> of the mathematical library, as the values
  they return for a finite argument.
\<close>

record libm =
  cos_d :: "real \<Rightarrow> real"
  sin_d :: "real \<Rightarrow> real"

text \<open>
  \<^verbatim>\<open>Complex fromAngle(float amplitude, float angle)\<close>: the two parameters are
  floats, so every caller narrows its arguments; the body computes in \<^verbatim>\<open>double\<close>.
\<close>

definition fromAngle :: "libm \<Rightarrow> double \<Rightarrow> double \<Rightarrow> Complex_t" where
  "fromAngle lm amplitude angle =
     \<lparr>re = dmul amplitude (libm_call (cos_d lm) angle),
      im = dmul amplitude (libm_call (sin_d lm) angle)\<rparr>"





text \<open>
  The value of the expression \<^verbatim>\<open>(-PI * k * k) / bufflen\<close>, and of
  \<^verbatim>\<open>(PI * k * k) / bufflen\<close>, in \<^verbatim>\<open>double\<close>: \<open>k\<close> and \<open>bufflen\<close> are converted,
  every operation rounds.
\<close>

definition phase_neg :: "nat \<Rightarrow> nat \<Rightarrow> double" where
  "phase_neg k bufflen =
     ddiv (dmul (dmul (dneg (Finite PI)) (dbl (real k))) (dbl (real k))) (to_double (real bufflen))"

definition phase_pos :: "nat \<Rightarrow> nat \<Rightarrow> double" where
  "phase_pos k bufflen =
     ddiv (dmul (dmul (Finite PI) (dbl (real k))) (dbl (real k))) (to_double (real bufflen))"

text \<open>
  \<^verbatim>\<open>float phase = (-PI * k * k) / bufflen;\<close> narrows the first; passing the second
  to the \<^verbatim>\<open>float\<close> parameter of \<^verbatim>\<open>fromAngle\<close> narrows it.
\<close>

definition chirp_phase :: "nat \<Rightarrow> nat \<Rightarrow> double" where
  "chirp_phase k bufflen = narrow (phase_neg k bufflen)"

definition B_phase :: "nat \<Rightarrow> nat \<Rightarrow> double" where
  "B_phase k bufflen = narrow (phase_pos k bufflen)"

text \<open>The first loop: \<^verbatim>\<open>chirp[k] = fromAngle(1, phase)\<close> for \<open>k < bufflen\<close>.\<close>

definition chirp_seq :: "libm \<Rightarrow> nat \<Rightarrow> Complex_t list" where
  "chirp_seq lm bufflen = map (\<lambda>k. fromAngle lm (Finite 1) (chirp_phase k bufflen)) [0..<bufflen]"







section \<open>Properties of the rounding\<close>

lemma round_ties_even_of_int: "round_ties_even (of_int z) = z"
  by (simp add: round_ties_even_def)

lemma round_ties_even_minus: "round_ties_even (- q) = - round_ties_even q"
proof (cases "q = of_int \<lfloor>q\<rfloor>")
  case True
  then obtain z where q: "q = of_int z" ..
  have "round_ties_even (- q) = round_ties_even (of_int (- z))" using q by simp
  also have "\<dots> = - z" by (rule round_ties_even_of_int)
  finally show ?thesis using q by (simp add: round_ties_even_of_int)
next
  case False
  define f where "f = \<lfloor>q\<rfloor>"
  have lo: "of_int f < q" using False unfolding f_def by (metis of_int_floor_le order_less_le)
  have hi: "q < of_int f + 1" unfolding f_def by linarith
  have fl: "\<lfloor>- q\<rfloor> = - f - 1"
    by (rule floor_unique) (use lo hi in simp_all)
  have ev: "even (- f - 1) \<longleftrightarrow> odd f" by simp
  have r: "round_ties_even q =
      (if q - of_int f < 1 / 2 then f else if 1 / 2 < q - of_int f then f + 1
       else if even f then f else f + 1)"
    by (simp add: round_ties_even_def f_def Let_def)
  have r': "round_ties_even (- q) =
      (if - q - of_int (- f - 1) < 1 / 2 then - f - 1
       else if 1 / 2 < - q - of_int (- f - 1) then - f - 1 + 1
       else if even (- f - 1) then - f - 1 else - f - 1 + 1)"
    unfolding round_ties_even_def Let_def fl ..
  consider "q - of_int f < 1 / 2" | "1 / 2 < q - of_int f" | "q - of_int f = 1 / 2"
    by linarith
  then show ?thesis
  proof cases
    case 1
    then have "\<not> - q - of_int (- f - 1) < 1 / 2" "1 / 2 < - q - of_int (- f - 1)" by simp_all
    then show ?thesis using 1 r r' by simp
  next
    case 2
    then have "- q - of_int (- f - 1) < 1 / 2" by simp
    moreover have "\<not> q - of_int f < 1 / 2" using 2 by simp
    ultimately show ?thesis using 2 r r' by simp
  next
    case 3
    then have "\<not> - q - of_int (- f - 1) < 1 / 2" "\<not> 1 / 2 < - q - of_int (- f - 1)" by simp_all
    moreover have "\<not> q - of_int f < 1 / 2" "\<not> 1 / 2 < q - of_int f" using 3 by simp_all
    ultimately show ?thesis using r r' ev by simp
  qed
qed

text \<open>Rounding moves a value by at most one half.\<close>

lemma round_ties_even_near:
  "\<bar>of_int (round_ties_even q) - q\<bar> \<le> 1 / 2"
proof -
  define f where "f = \<lfloor>q\<rfloor>"
  have b: "of_int f \<le> q" "q < of_int f + 1" unfolding f_def by linarith+
  have r: "round_ties_even q =
      (if q - of_int f < 1 / 2 then f else if 1 / 2 < q - of_int f then f + 1
       else if even f then f else f + 1)"
    by (simp add: round_ties_even_def f_def Let_def)
  consider "q - of_int f < 1 / 2" | "1 / 2 < q - of_int f" | "q - of_int f = 1 / 2"
    by linarith
  then show ?thesis
  proof cases
    case 1
    then have "round_ties_even q = f" using r by simp
    then show ?thesis using 1 b by simp
  next
    case 2
    then have "round_ties_even q = f + 1" using r by simp
    then show ?thesis using 2 b by simp
  next
    case 3
    then have "round_ties_even q = f \<or> round_ties_even q = f + 1" using r by simp
    then show ?thesis using 3 by auto
  qed
qed

lemma round_ties_even_nonneg: "0 \<le> q \<Longrightarrow> 0 \<le> round_ties_even q"
proof -
  assume "0 \<le> q"
  then have "0 \<le> \<lfloor>q\<rfloor>" by simp
  moreover have "round_ties_even q = \<lfloor>q\<rfloor> \<or> round_ties_even q = \<lfloor>q\<rfloor> + 1"
    by (simp add: round_ties_even_def Let_def)
  ultimately show ?thesis by auto
qed

lemma round_ties_even_abs_le: "\<bar>real_of_int (round_ties_even q)\<bar> \<le> 2 * \<bar>q\<bar>"
proof (cases "\<bar>q\<bar> < 1 / 2")
  case True
  have "\<bar>real_of_int (round_ties_even q)\<bar> \<le> \<bar>of_int (round_ties_even q) - q\<bar> + \<bar>q\<bar>"
    by linarith
  also have "\<dots> < 1 / 2 + 1 / 2" using round_ties_even_near [of q] True by linarith
  finally have "\<bar>real_of_int (round_ties_even q)\<bar> < 1" by simp
  then have "\<bar>round_ties_even q\<bar> < 1" by linarith
  then have "round_ties_even q = 0" by linarith
  then show ?thesis by simp
next
  case False
  have "\<bar>real_of_int (round_ties_even q)\<bar> \<le> \<bar>of_int (round_ties_even q) - q\<bar> + \<bar>q\<bar>"
    by linarith
  also have "\<dots> \<le> 1 / 2 + \<bar>q\<bar>" using round_ties_even_near [of q] by linarith
  also have "\<dots> \<le> 2 * \<bar>q\<bar>" using False by linarith
  finally show ?thesis .
qed

lemma round_to_minus: "round_to p emin (- x) = - round_to p emin x"
  by (simp add: round_to_def Let_def round_ties_even_minus)

lemma round_to_abs_le: "\<bar>round_to p emin x\<bar> \<le> 2 * \<bar>x\<bar>"
proof (cases "x = 0")
  case True
  then show ?thesis by (simp add: round_to_def)
next
  case False
  define e where "e = max \<lfloor>log 2 \<bar>x\<bar>\<rfloor> emin - (int p - 1)"
  define u where "u = (2::real) powr of_int e"
  have u: "0 < u" by (simp add: u_def)
  have "round_to p emin x = of_int (round_ties_even (x / u)) * u"
    using False by (simp add: round_to_def Let_def e_def u_def)
  then have "\<bar>round_to p emin x\<bar> = \<bar>real_of_int (round_ties_even (x / u))\<bar> * u"
    using u by (simp add: abs_mult)
  also have "\<dots> \<le> 2 * \<bar>x / u\<bar> * u"
    by (rule mult_right_mono [OF round_ties_even_abs_le]) (use u in simp)
  also have "\<dots> = 2 * \<bar>x\<bar>" using u by (simp add: abs_divide)
  finally show ?thesis .
qed

lemma round_to_nonneg: "0 \<le> x \<Longrightarrow> 0 \<le> round_to p emin x"
proof (cases "x = 0")
  case True
  then show ?thesis by (simp add: round_to_def)
next
  case False
  assume "0 \<le> x"
  then have "0 \<le> round_ties_even (x / 2 powr of_int (max \<lfloor>log 2 \<bar>x\<bar>\<rfloor> emin - (int p - 1)))"
    by (intro round_ties_even_nonneg) simp
  then show ?thesis using False by (simp add: round_to_def Let_def)
qed

text \<open>A nonzero real lies between two neighbouring powers of two.\<close>

lemma binade:
  assumes "x \<noteq> 0"
  shows "2 powr of_int \<lfloor>log 2 \<bar>x\<bar>\<rfloor> \<le> \<bar>x\<bar>" and "\<bar>x\<bar> < 2 powr (of_int \<lfloor>log 2 \<bar>x\<bar>\<rfloor> + 1)"
proof -
  have pos: "0 < \<bar>x\<bar>" using assms by simp
  have "of_int \<lfloor>log 2 \<bar>x\<bar>\<rfloor> \<le> log 2 \<bar>x\<bar>" by simp
  then have "2 powr of_int \<lfloor>log 2 \<bar>x\<bar>\<rfloor> \<le> 2 powr log 2 \<bar>x\<bar>" by (simp only: powr_le_cancel_iff)
  then show "2 powr of_int \<lfloor>log 2 \<bar>x\<bar>\<rfloor> \<le> \<bar>x\<bar>" using pos by simp
  have "log 2 \<bar>x\<bar> < of_int \<lfloor>log 2 \<bar>x\<bar>\<rfloor> + 1" by linarith
  then have "2 powr log 2 \<bar>x\<bar> < 2 powr (of_int \<lfloor>log 2 \<bar>x\<bar>\<rfloor> + 1)" by (simp only: powr_less_cancel_iff)
  then show "\<bar>x\<bar> < 2 powr (of_int \<lfloor>log 2 \<bar>x\<bar>\<rfloor> + 1)" using pos by simp
qed

lemma floor_log2_eq:
  assumes "2 powr of_int l \<le> \<bar>x\<bar>" and "\<bar>x\<bar> < 2 powr (of_int l + 1)"
  shows "\<lfloor>log 2 \<bar>x\<bar>\<rfloor> = l"
proof (rule floor_unique)
  have pos: "0 < \<bar>x\<bar>" using assms(1) by (smt (verit) powr_gt_zero)
  show "of_int l \<le> log 2 \<bar>x\<bar>"
    using assms(1) pos by (subst le_log_iff) simp_all
  show "log 2 \<bar>x\<bar> < of_int l + 1"
    using assms(2) pos by (subst log_less_iff) simp_all
qed

text \<open>How a value in a known binade is rounded.\<close>

lemma round_to_eval:
  assumes "2 powr of_int l \<le> \<bar>x\<bar>" and "\<bar>x\<bar> < 2 powr (of_int l + 1)" and "emin \<le> l"
  shows "round_to p emin x =
     of_int (round_ties_even (x / 2 powr of_int (l - (int p - 1)))) * 2 powr of_int (l - (int p - 1))"
proof -
  have "x \<noteq> 0" using assms(1) by (smt (verit) powr_gt_zero)
  moreover have "max \<lfloor>log 2 \<bar>x\<bar>\<rfloor> emin = l"
    using floor_log2_eq [OF assms(1,2)] assms(3) by simp
  ultimately show ?thesis by (simp add: round_to_def Let_def)
qed

text \<open>A value that has the format is not changed by rounding.\<close>

lemma round_to_exact:
  assumes x: "x = of_int s * 2 powr of_int e" and s: "\<bar>s\<bar> < 2 ^ p"
    and e: "emin - (int p - 1) \<le> e"
  shows "round_to p emin x = x"
proof (cases "s = 0")
  case True
  then show ?thesis using x by (simp add: round_to_def)
next
  case False
  have x0: "x \<noteq> 0" using False x by simp
  define l where "l = \<lfloor>log 2 \<bar>x\<bar>\<rfloor>"
  define E where "E = max l emin - (int p - 1)"
  have "real_of_int \<bar>s\<bar> < real_of_int (2 ^ p)" using s by (simp only: of_int_less_iff)
  then have sr: "\<bar>real_of_int s\<bar> < 2 powr real p" by (simp add: powr_realpow)
  have "\<bar>x\<bar> = \<bar>real_of_int s\<bar> * 2 powr of_int e" unfolding x by (simp add: abs_mult)
  also have "\<dots> < 2 powr real p * 2 powr of_int e"
    using sr by (simp add: mult_strict_right_mono)
  also have "\<dots> = 2 powr (real p + of_int e)" by (simp add: powr_add)
  finally have "\<bar>x\<bar> < 2 powr (real p + of_int e)" .
  moreover have "2 powr of_int l \<le> \<bar>x\<bar>" unfolding l_def using binade(1) [OF x0] .
  ultimately have "2 powr real_of_int l < 2 powr (real p + of_int e)" by linarith
  then have "real_of_int l < real p + of_int e" by (simp only: powr_less_cancel_iff) 
  then have "real_of_int l < real_of_int (int p + e)" by simp
  then have "l < int p + e" by (simp only: of_int_less_iff)
  then have Ee: "E \<le> e" using e by (simp add: E_def)
  define d where "d = nat (e - E)"
  have de: "e = E + int d" using Ee by (simp add: d_def)
  have pw: "(2::real) powr of_int e = 2 ^ d * 2 powr of_int E"
    unfolding de by (simp add: powr_add powr_realpow)
  have "x / 2 powr of_int E = of_int s * 2 ^ d"
    unfolding x pw by simp
  also have "\<dots> = of_int (s * 2 ^ d)" by simp
  finally have q: "x / 2 powr of_int E = of_int (s * 2 ^ d)" .
  have "round_to p emin x = of_int (round_ties_even (x / 2 powr of_int E)) * 2 powr of_int E"
    using x0 by (simp add: round_to_def Let_def E_def l_def)
  also have "\<dots> = of_int (s * 2 ^ d) * 2 powr of_int E"
    by (simp only: q round_ties_even_of_int)
  also have "\<dots> = x" unfolding x pw by simp
  finally show ?thesis .
qed

lemma to_double_exact:
  "x = of_int s * 2 powr of_int e \<Longrightarrow> \<bar>s\<bar> < 2 ^ 53 \<Longrightarrow> - 1074 \<le> e \<Longrightarrow> to_double x = x"
  unfolding to_double_def by (rule round_to_exact [of x s e 53]) simp_all

lemma to_float_exact:
  "x = of_int s * 2 powr of_int e \<Longrightarrow> \<bar>s\<bar> < 2 ^ 24 \<Longrightarrow> - 149 \<le> e \<Longrightarrow> to_float x = x"
  unfolding to_float_def by (rule round_to_exact [of x s e 24]) simp_all

lemma to_double_of_int: "\<bar>z\<bar> < 2 ^ 53 \<Longrightarrow> to_double (of_int z) = of_int z"
  by (rule to_double_exact [of _ z 0]) simp_all

lemma to_double_of_nat: "n < 2 ^ 53 \<Longrightarrow> to_double (real n) = real n"
  using to_double_of_int [of "int n"] by simp

lemma to_double_0 [simp]: "to_double 0 = 0"
  by (simp add: to_double_def round_to_def)

lemma to_double_minus: "to_double (- x) = - to_double x"
  by (simp add: to_double_def round_to_minus)

lemma to_float_minus: "to_float (- x) = - to_float x"
  by (simp add: to_float_def round_to_minus)

lemma to_double_nonneg: "0 \<le> x \<Longrightarrow> 0 \<le> to_double x"
  by (simp add: to_double_def round_to_nonneg)

lemma to_double_abs_le: "\<bar>to_double x\<bar> \<le> 2 * \<bar>x\<bar>"
  by (simp add: to_double_def round_to_abs_le)

lemma DBL_MAX_ge: "2 ^ 1023 \<le> DBL_MAX"
proof -
  have "(2::real) ^ 1023 = 2 ^ 52 * 2 ^ 971" by (simp flip: power_add)
  also have "\<dots> \<le> (2 ^ 53 - 1) * 2 ^ 971" by (rule mult_right_mono) simp_all
  finally show ?thesis by (simp only: DBL_MAX_def)
qed

text \<open>An operation whose exact result is moderate delivers a finite double.\<close>

lemma dbl_Finite: "\<bar>x\<bar> \<le> 2 ^ 1022 \<Longrightarrow> dbl x = Finite (to_double x)"
proof -
  assume "\<bar>x\<bar> \<le> 2 ^ 1022"
  then have "2 * \<bar>x\<bar> \<le> 2 ^ 1023" by simp
  then have "\<bar>to_double x\<bar> \<le> DBL_MAX"
    using to_double_abs_le [of x] DBL_MAX_ge by linarith
  then show ?thesis by (simp add: dbl_def)
qed

lemma dbl_minus: "dbl (- x) = dneg (dbl x)"
  by (simp add: dbl_def to_double_minus)

lemma flt_minus: "flt (- x) = dneg (flt x)"
  by (simp add: flt_def to_float_minus)

lemma narrow_dneg: "narrow (dneg d) = dneg (narrow d)"
  by (cases d) (simp_all add: flt_minus)

lemma dmul_dneg: "dmul (dneg a) b = dneg (dmul a b)"
  by (cases a; cases b) (simp_all flip: dbl_minus)

lemma ddiv_dneg: "ddiv (dneg a) y = dneg (ddiv a y)"
  by (cases a) (simp_all flip: dbl_minus)

section \<open>Runs of the hop loop\<close>

lemma div_step: "0 < (h::nat) \<Longrightarrow> i + h \<le> n2 \<Longrightarrow> (n2 - i) div h = Suc ((n2 - (i + h)) div h)"
proof -
  assume h: "0 < h" and le: "i + h \<le> n2"
  have "n2 - i = (n2 - (i + h)) + h" using le by simp
  then have "(n2 - i) div h = ((n2 - (i + h)) + h) div h" by simp
  also have "\<dots> = Suc ((n2 - (i + h)) div h)" using h by simp
  finally show ?thesis .
qed

lemma write_mags_append:
  "write_mags out i (js @ ks) fa =
     (case write_mags out i js fa of Inl e \<Rightarrow> Inl e | Inr fa1 \<Rightarrow> write_mags out i ks fa1)"
  by (induction js arbitrary: fa) auto

lemma write_mags_upt:
  "i + m \<le> length fa \<Longrightarrow> m \<le> length out \<Longrightarrow>
   \<exists>fa'. write_mags out i [0..<m] fa = Inr fa' \<and> length fa' = length fa \<and>
     (\<forall>p<length fa. fa' ! p =
        (if i \<le> p \<and> p < i + m then Some (magnitude (out ! (p - i))) else fa ! p))"
proof (induction m)
  case 0
  then show ?case by auto
next
  case (Suc m)
  then obtain fa1 where w: "write_mags out i [0..<m] fa = Inr fa1"
    and l: "length fa1 = length fa"
    and v: "\<forall>p<length fa. fa1 ! p =
        (if i \<le> p \<and> p < i + m then Some (magnitude (out ! (p - i))) else fa ! p)"
    by auto
  let ?fa' = "fa1[i + m := Some (magnitude (out ! m))]"
  have "write_mags out i [0..<Suc m] fa = Inr ?fa'"
    using Suc.prems w l by (simp add: write_mags_append)
  moreover have "length ?fa' = length fa" using l by simp
  moreover have "\<forall>p<length fa. ?fa' ! p =
        (if i \<le> p \<and> p < i + Suc m then Some (magnitude (out ! (p - i))) else fa ! p)"
  proof (intro allI impI)
    fix p assume p: "p < length fa"
    show "?fa' ! p =
        (if i \<le> p \<and> p < i + Suc m then Some (magnitude (out ! (p - i))) else fa ! p)"
    proof (cases "p = i + m")
      case True
      then show ?thesis using p l by simp
    next
      case False
      then have "?fa' ! p = fa1 ! p" by simp
      then show ?thesis using v p False by auto
    qed
  qed
  ultimately show ?case by blast
qed

lemma hop_body_result:
  assumes "0 < h" and "i + h \<le> length left" and "i + h \<le> length (freqArr st)"
    and "h div 2 < length (fft (hop_window h left i))"
  shows "\<exists>st'. hop_body fft h left i st = Inr st' \<and>
           in_buf st' = hop_window h left i \<and>
           out_buf st' = fft (hop_window h left i) \<and>
           executed st' = executed st @ [(i, hop_window h left i)] \<and>
           length (freqArr st') = length (freqArr st) \<and>
           (\<forall>p<length (freqArr st). freqArr st' ! p =
              (if i \<le> p \<and> p \<le> i + h div 2
               then Some (magnitude (fft (hop_window h left i) ! (p - i)))
               else freqArr st ! p))"
proof -
  have "i + (h div 2 + 1) \<le> length (freqArr st)" using assms(1,3) by simp
  moreover have "h div 2 + 1 \<le> length (fft (hop_window h left i))" using assms(4) by simp
  ultimately obtain fa' where
    w: "write_mags (fft (hop_window h left i)) i [0..<h div 2 + 1] (freqArr st) = Inr fa'"
    and l: "length fa' = length (freqArr st)"
    and v: "\<forall>p<length (freqArr st). fa' ! p =
        (if i \<le> p \<and> p < i + (h div 2 + 1)
         then Some (magnitude (fft (hop_window h left i) ! (p - i))) else freqArr st ! p)"
    using write_mags_upt by blast
  have "hop_body fft h left i st =
      Inr \<lparr>in_buf = hop_window h left i, out_buf = fft (hop_window h left i),
           freqArr = fa', executed = executed st @ [(i, hop_window h left i)]\<rparr>"
    using assms(2) w by (simp add: hop_body_def Let_def)
  moreover have "\<forall>p<length (freqArr st). fa' ! p =
        (if i \<le> p \<and> p \<le> i + h div 2
         then Some (magnitude (fft (hop_window h left i) ! (p - i))) else freqArr st ! p)"
    using v by (simp add: less_Suc_eq_le)
  ultimately show ?thesis using l by simp
qed

lemma hop_loop_result:
  "0 < h \<Longrightarrow> n2 \<le> length left \<Longrightarrow>
   \<forall>w. length w = h \<longrightarrow> h div 2 < length (fft w) \<Longrightarrow>
   n2 \<le> length (freqArr st) \<Longrightarrow> i + (n2 - i) div h * h + h \<le> INT_MAX \<Longrightarrow>
     \<exists>st'. hop_loop fft h n2 left i st = Inr st' \<and>
       executed st' = executed st
         @ map (\<lambda>k. (i + k * h, hop_window h left (i + k * h))) [0..<(n2 - i) div h] \<and>
       length (freqArr st') = length (freqArr st) \<and>
       (\<forall>k j. k < (n2 - i) div h \<longrightarrow> j \<le> h div 2 \<longrightarrow>
          freqArr st' ! (i + k * h + j) =
            Some (magnitude (fft (hop_window h left (i + k * h)) ! j))) \<and>
       (\<forall>p<length (freqArr st).
          (p < i \<or> i + (n2 - i) div h * h \<le> p \<or> h div 2 < (p - i) mod h) \<longrightarrow>
          freqArr st' ! p = freqArr st ! p)"
proof (induction fft h n2 left i st rule: hop_loop.induct)
  case (1 fft h n2 left i st)
  note h = "1.prems"(1)
  show ?case
  proof (cases "i + h \<le> n2")
    case False
    then have "(n2 - i) div h = 0" using h by (simp add: div_eq_0_iff)
    moreover have "hop_loop fft h n2 left i st = Inr st"
      using False h "1.prems"(5) calculation by (subst hop_loop.simps) simp
    ultimately show ?thesis by simp
  next
    case True
    have wl: "length (hop_window h left i) = h" by (simp add: hop_window_def)
    from hop_body_result [of h i left st fft] obtain st1 where
      b: "hop_body fft h left i st = Inr st1"
      and e1: "executed st1 = executed st @ [(i, hop_window h left i)]"
      and l1: "length (freqArr st1) = length (freqArr st)"
      and v1: "\<forall>p<length (freqArr st). freqArr st1 ! p =
              (if i \<le> p \<and> p \<le> i + h div 2
               then Some (magnitude (fft (hop_window h left i) ! (p - i)))
               else freqArr st ! p)"
      using h True "1.prems" wl by auto
    have len1: "n2 \<le> length (freqArr st1)" using l1 "1.prems" by simp
    have d: "(n2 - i) div h = Suc ((n2 - (i + h)) div h)"
      using div_step [OF h True] .
    have bnd: "i + h + (n2 - (i + h)) div h * h + h \<le> INT_MAX"
      using "1.prems"(5) unfolding d by (simp add: add.assoc add.commute)
    have small: "\<not> INT_MAX < i + h" using bnd by linarith
    from "1.IH" [OF _ small True b] h "1.prems"(1,2,3) len1 bnd obtain st' where
      r: "hop_loop fft h n2 left (i + h) st1 = Inr st'"
      and e: "executed st' = executed st1
         @ map (\<lambda>k. (i + h + k * h, hop_window h left (i + h + k * h))) [0..<(n2 - (i + h)) div h]"
      and l: "length (freqArr st') = length (freqArr st1)"
      and w: "\<forall>k j. k < (n2 - (i + h)) div h \<longrightarrow> j \<le> h div 2 \<longrightarrow>
          freqArr st' ! (i + h + k * h + j) =
            Some (magnitude (fft (hop_window h left (i + h + k * h)) ! j))"
      and u: "\<forall>p<length (freqArr st1).
          (p < i + h \<or> i + h + (n2 - (i + h)) div h * h \<le> p \<or> h div 2 < (p - (i + h)) mod h) \<longrightarrow>
          freqArr st' ! p = freqArr st1 ! p"
      by auto
    have hh: "h div 2 < h" using h by simp
    have run: "hop_loop fft h n2 left i st = Inr st'"
      using True h b r small by (subst hop_loop.simps) simp
    have "map (\<lambda>k. (i + k * h, hop_window h left (i + k * h))) [0..<(n2 - i) div h]
        = (i, hop_window h left i)
          # map (\<lambda>k. (i + h + k * h, hop_window h left (i + h + k * h)))
              [0..<(n2 - (i + h)) div h]"
      unfolding d by (simp add: upt_conv_Cons map_Suc_upt [symmetric] add.assoc del: upt_Suc)
    then have ex: "executed st' = executed st
         @ map (\<lambda>k. (i + k * h, hop_window h left (i + k * h))) [0..<(n2 - i) div h]"
      using e e1 by simp
    have len: "length (freqArr st') = length (freqArr st)" using l l1 by simp
    have written: "freqArr st' ! (i + k * h + j) =
            Some (magnitude (fft (hop_window h left (i + k * h)) ! j))"
      if k: "k < (n2 - i) div h" and j: "j \<le> h div 2" for k j
    proof (cases k)
      case 0
      have "i + j < i + h" using j hh by simp
      moreover have "i + j < length (freqArr st1)" using True j hh l1 "1.prems" by simp
      ultimately have "freqArr st' ! (i + j) = freqArr st1 ! (i + j)" using u by simp
      also have "\<dots> = Some (magnitude (fft (hop_window h left i) ! j))"
        using v1 True j hh "1.prems" by simp
      finally show ?thesis using 0 by simp
    next
      case (Suc k')
      then have "k' < (n2 - (i + h)) div h" using k d by simp
      then have "freqArr st' ! (i + h + k' * h + j) =
            Some (magnitude (fft (hop_window h left (i + h + k' * h)) ! j))"
        using w j by blast
      moreover have "i + h + k' * h = i + k * h" using Suc by simp
      ultimately show ?thesis by simp
    qed
    have unchanged: "freqArr st' ! p = freqArr st ! p"
      if p: "p < length (freqArr st)"
        and c: "p < i \<or> i + (n2 - i) div h * h \<le> p \<or> h div 2 < (p - i) mod h" for p
    proof -
      have c1: "p < i + h \<or> i + h + (n2 - (i + h)) div h * h \<le> p \<or> h div 2 < (p - (i + h)) mod h"
      proof (cases "p < i + h")
        case True then show ?thesis by simp
      next
        case False
        then have "p - i = (p - (i + h)) + h" by simp
        then have "(p - i) mod h = (p - (i + h)) mod h" by simp
        moreover have "i + (n2 - i) div h * h = i + h + (n2 - (i + h)) div h * h"
          unfolding d by simp
        ultimately show ?thesis using c False by auto
      qed
      have c2: "\<not> (i \<le> p \<and> p \<le> i + h div 2)"
      proof
        assume a: "i \<le> p \<and> p \<le> i + h div 2"
        then have "p - i < h" using hh by linarith
        then have "(p - i) mod h = p - i" by simp
        moreover have "p < i + (n2 - i) div h * h" unfolding d using a hh by (simp add: add.commute less_add_Suc2 trans_less_add1) linarith?
        ultimately show False using c a by auto
      qed
      have "p < length (freqArr st1)" using p l1 by simp
      with u c1 have "freqArr st' ! p = freqArr st1 ! p" by blast
      also have "\<dots> = freqArr st ! p" using v1 p c2 by auto
      finally show ?thesis .
    qed
    show ?thesis using run ex len written unchanged by blast
  qed
qed

lemma hop_window_take_drop:
  "i + h \<le> length left \<Longrightarrow> hop_window h left i = take h (drop i left)"
  by (rule nth_equalityI) (simp_all add: hop_window_def)

lemma concat_windows:
  "m * h \<le> length left \<Longrightarrow>
   concat (map (\<lambda>k. take h (drop (k * h) left)) [0..<m]) = take (m * h) left"
proof (induction m)
  case 0
  then show ?case by simp
next
  case (Suc m)
  then have "concat (map (\<lambda>k. take h (drop (k * h) left)) [0..<m]) = take (m * h) left"
    by simp
  then have "concat (map (\<lambda>k. take h (drop (k * h) left)) [0..<Suc m])
      = take (m * h) left @ take h (drop (m * h) left)"
    by simp
  also have "\<dots> = take (m * h + h) left" by (simp add: take_add)
  finally show ?case by (simp add: add.commute)
qed

lemma dft_r2c_impulse:
  "dft_r2c (x # replicate n 0) = replicate (Suc n div 2 + 1) (complex_of_real x)"
proof -
  have "(\<Sum>j<Suc n. of_real ((x # replicate n 0) ! j) *
           cis (- 2 * pi * real j * real k / real (Suc n))) = complex_of_real x" for k
    by (subst sum.lessThan_Suc_shift) simp
  then show ?thesis
    by (simp add: dft_r2c_def map_replicate_const del: sum.lessThan_Suc)
qed

lemma div3: "Suc (Suc (Suc 0)) div Suc (Suc 0) = Suc 0"
  by code_simp

lemma div4: "Suc (Suc (Suc (Suc 0))) div Suc (Suc 0) = Suc (Suc 0)"
  by code_simp

lemma dft3: "dft_r2c [x, 0, 0] = [complex_of_real x, complex_of_real x]"
  using dft_r2c_impulse [of x 2] by (simp add: numeral_2_eq_2 div3)

lemma dft4: "dft_r2c [x, 0, 0, 0] = [complex_of_real x, complex_of_real x, complex_of_real x]"
  using dft_r2c_impulse [of x 3] by (simp add: numeral_3_eq_3)

text \<open>When the last test of the loop header leaves the range of \<^verbatim>\<open>int\<close>.\<close>

lemma hop_loop_overflow:
  "0 < h \<Longrightarrow> n2 \<le> length left \<Longrightarrow>
   \<forall>w. length w = h \<longrightarrow> h div 2 < length (fft w) \<Longrightarrow>
   n2 \<le> length (freqArr st) \<Longrightarrow> INT_MAX < i + (n2 - i) div h * h + h \<Longrightarrow>
   hop_loop fft h n2 left i st = Inl IntOverflow"
proof (induction fft h n2 left i st rule: hop_loop.induct)
  case (1 fft h n2 left i st)
  note h = "1.prems"(1)
  show ?case
  proof (cases "INT_MAX < i + h")
    case True
    then show ?thesis using h by (subst hop_loop.simps) simp
  next
    case small: False
    show ?thesis
    proof (cases "i + h \<le> n2")
      case False
      then have "(n2 - i) div h = 0" using h by (simp add: div_eq_0_iff)
      then show ?thesis using "1.prems"(5) small by simp
    next
      case True
      have wl: "length (hop_window h left i) = h" by (simp add: hop_window_def)
      from hop_body_result [of h i left st fft] obtain st1 where
        b: "hop_body fft h left i st = Inr st1"
        and l1: "length (freqArr st1) = length (freqArr st)"
        using h True "1.prems" wl by auto
      have len1: "n2 \<le> length (freqArr st1)" using l1 "1.prems" by simp
      have d: "(n2 - i) div h = Suc ((n2 - (i + h)) div h)"
        using div_step [OF h True] .
      have bnd: "INT_MAX < i + h + (n2 - (i + h)) div h * h + h"
        using "1.prems"(5) unfolding d by (simp add: add.assoc add.commute)
      have "hop_loop fft h n2 left (i + h) st1 = Inl IntOverflow"
        using "1.IH" [OF _ small True b] h "1.prems"(1,2,3) len1 bnd by simp
      then show ?thesis using True h b small by (subst hop_loop.simps) simp
    qed
  qed
qed

text \<open>Doubles of integers.\<close>

lemma dbl_of_int: "\<bar>z\<bar> < 2 ^ 53 \<Longrightarrow> dbl (of_int z) = Finite (of_int z)"
proof -
  assume z: "\<bar>z\<bar> < 2 ^ 53"
  then have "real_of_int \<bar>z\<bar> < real_of_int (2 ^ 53)" by (simp only: of_int_less_iff)
  then have "\<bar>real_of_int z\<bar> \<le> 2 ^ 53" by simp
  also have "(2::real) ^ 53 \<le> 2 ^ 1022" by (rule power_increasing) simp_all
  finally have "dbl (of_int z) = Finite (to_double (of_int z))" by (rule dbl_Finite)
  then show ?thesis using to_double_of_int [OF z] by simp
qed

lemma magnitude_of_int:
  assumes "\<bar>z\<bar> < 2 ^ 26"
  shows "magnitude (of_int z) = Finite (of_int \<bar>z\<bar>)"
proof -
  have "\<bar>z\<bar> * \<bar>z\<bar> < 2 ^ 26 * 2 ^ 26"
    using assms by (intro mult_strict_mono) simp_all
  then have zz: "\<bar>z * z\<bar> < 2 ^ 53" by (simp add: abs_mult)
  have a: "dbl (real_of_int z * real_of_int z) = Finite (of_int (z * z))"
    using dbl_of_int [OF zz] by simp
  have z0: "dbl (0 * 0) = Finite 0" using dbl_of_int [of 0] by simp
  have a0: "dbl (real_of_int (z * z) + 0) = Finite (of_int (z * z))"
    using dbl_of_int [OF zz] by simp
  have "\<bar>z\<bar> < 2 ^ 53" using assms by simp
  then have "\<bar>\<bar>z\<bar>\<bar> < 2 ^ 53" by simp
  then have b: "dbl (real_of_int \<bar>z\<bar>) = Finite (of_int \<bar>z\<bar>)" by (rule dbl_of_int)
  have s: "sqrt (real_of_int (z * z)) = real_of_int \<bar>z\<bar>" by simp
  have nn: "\<not> real_of_int (z * z) < 0" by simp
  have "magnitude (of_int z) = dsqrt (dadd (dbl (real_of_int z * real_of_int z)) (dbl (0 * 0)))"
    by (simp add: magnitude_def)
  also have "\<dots> = dsqrt (dadd (Finite (of_int (z * z))) (Finite 0))" by (simp only: a z0)
  also have "\<dots> = dsqrt (dbl (real_of_int (z * z) + 0))" by (simp only: dadd.simps)
  also have "\<dots> = dsqrt (Finite (of_int (z * z)))" by (simp only: a0)
  also have "\<dots> = dbl (sqrt (real_of_int (z * z)))" using nn by (simp only: dsqrt.simps if_False)
  also have "\<dots> = Finite (of_int \<bar>z\<bar>)" by (simp only: s b)
  finally show ?thesis .
qed

lemma magnitude_1: "magnitude 1 = Finite 1"
  using magnitude_of_int [of 1] by simp

lemma magnitude_2: "magnitude 2 = Finite 2"
  using magnitude_of_int [of 2] by simp

lemma magnitude_3: "magnitude 3 = Finite 3"
  using magnitude_of_int [of 3] by simp

text \<open>
  The magnitude of a bin of moderate size is a finite double that is not negative: the
  rounded root of the rounded sum of the rounded squares.
\<close>

lemma magnitude_Finite_aux:
  assumes re: "\<bar>Re z\<bar> \<le> K" and im: "\<bar>Im z\<bar> \<le> K" and K: "8 * (K * K) \<le> M" "1 \<le> M"
    and M: "\<And>x. \<bar>x\<bar> \<le> M \<Longrightarrow> dbl x = Finite (to_double x)"
  shows "magnitude z =
     Finite (to_double (sqrt (to_double (to_double (Re z * Re z) + to_double (Im z * Im z)))))"
    and "0 \<le> to_double (sqrt (to_double (to_double (Re z * Re z) + to_double (Im z * Im z))))"
proof -
  have K0: "0 \<le> K" using re by linarith
  have KK: "0 \<le> K * K" using K0 by simp
  have sq: "\<bar>x * x\<bar> \<le> K * K" if "\<bar>x\<bar> \<le> K" for x :: real
  proof -
    have "\<bar>x\<bar> * \<bar>x\<bar> \<le> K * K" using that by (intro mult_mono) simp_all
    then show ?thesis by (simp add: abs_mult)
  qed
  let ?a = "to_double (Re z * Re z)" and ?b = "to_double (Im z * Im z)"
  have "\<bar>Re z * Re z\<bar> \<le> M" using sq [OF re] K(1) KK by linarith
  then have m1: "dbl (Re z * Re z) = Finite ?a" by (rule M)
  have "\<bar>Im z * Im z\<bar> \<le> M" using sq [OF im] K(1) KK by linarith
  then have m2: "dbl (Im z * Im z) = Finite ?b" by (rule M)
  have a0: "0 \<le> ?a" "0 \<le> ?b" by (simp_all add: to_double_nonneg)
  have "\<bar>?a\<bar> \<le> 2 * (K * K)"
    using to_double_abs_le [of "Re z * Re z"] sq [OF re] by linarith
  moreover have "\<bar>?b\<bar> \<le> 2 * (K * K)"
    using to_double_abs_le [of "Im z * Im z"] sq [OF im] by linarith
  ultimately have ab: "\<bar>?a + ?b\<bar> \<le> 4 * (K * K)" by linarith
  then have "\<bar>?a + ?b\<bar> \<le> M" using K(1) KK by linarith
  then have s: "dbl (?a + ?b) = Finite (to_double (?a + ?b))" by (rule M)
  let ?c = "to_double (?a + ?b)"
  have c0: "0 \<le> ?c" using a0 by (simp add: to_double_nonneg)
  have "\<bar>?c\<bar> \<le> 2 * \<bar>?a + ?b\<bar>" by (rule to_double_abs_le)
  also have "\<dots> \<le> 2 * (4 * (K * K))" using ab by (intro mult_left_mono) simp_all
  also have "\<dots> = 8 * (K * K)" by simp
  also have "\<dots> \<le> M" by (rule K(1))
  finally have "\<bar>?c\<bar> \<le> M" .
  then have c1: "?c \<le> M" by simp
  have "sqrt ?c \<le> M"
  proof (cases "?c \<le> 1")
    case True
    then have "sqrt ?c \<le> 1" by simp
    then show ?thesis using K(2) by linarith
  next
    case False
    then have "1 \<le> sqrt ?c" by simp
    then have "sqrt ?c * 1 \<le> sqrt ?c * sqrt ?c" by (intro mult_left_mono) simp_all
    then have "sqrt ?c \<le> ?c" using c0 by simp
    then show ?thesis using c1 by linarith
  qed
  then have "\<bar>sqrt ?c\<bar> \<le> M" using c0 by simp
  then have r: "dbl (sqrt ?c) = Finite (to_double (sqrt ?c))" by (rule M)
  show "magnitude z = Finite (to_double (sqrt ?c))"
    using m1 m2 s r c0 by (simp add: magnitude_def)
  show "0 \<le> to_double (sqrt ?c)" using c0 by (simp add: to_double_nonneg)
qed

lemma magnitude_Finite:
  assumes "cmod z \<le> 2 ^ 500"
  shows "magnitude z =
     Finite (to_double (sqrt (to_double (to_double (Re z * Re z) + to_double (Im z * Im z)))))"
    and "0 \<le> to_double (sqrt (to_double (to_double (Re z * Re z) + to_double (Im z * Im z))))"
proof -
  have re: "\<bar>Re z\<bar> \<le> 2 ^ 500" and im: "\<bar>Im z\<bar> \<le> 2 ^ 500"
    using assms abs_Re_le_cmod [of z] abs_Im_le_cmod [of z] by linarith+
  have "8 * ((2::real) ^ 500 * 2 ^ 500) = 2 ^ 1003" by (simp flip: power_add)
  also have "\<dots> \<le> 2 ^ 1022" by (rule power_increasing) simp_all
  finally have K: "8 * ((2::real) ^ 500 * 2 ^ 500) \<le> 2 ^ 1022" .
  have one: "(1::real) \<le> 2 ^ 1022" by simp
  show "magnitude z =
     Finite (to_double (sqrt (to_double (to_double (Re z * Re z) + to_double (Im z * Im z)))))"
    by (rule magnitude_Finite_aux(1) [OF re im K one dbl_Finite])
  show "0 \<le> to_double (sqrt (to_double (to_double (Re z * Re z) + to_double (Im z * Im z))))"
    by (rule magnitude_Finite_aux(2) [OF re im K one dbl_Finite])
qed

text \<open>A bin of the exact transform is at most the sum of the absolute samples.\<close>

lemma dft_r2c_bound:
  assumes "j \<le> length w div 2" and "\<forall>x\<in>set w. \<bar>x\<bar> \<le> c"
  shows "cmod (dft_r2c w ! j) \<le> real (length w) * c"
proof -
  have "dft_r2c w ! j =
      (\<Sum>i<length w. of_real (w ! i) * cis (- 2 * pi * real i * real j / real (length w)))"
    using assms(1) by (simp add: dft_r2c_def nth_append less_Suc_eq_le del: upt_Suc)
  also have "cmod \<dots> \<le> (\<Sum>i<length w. cmod (of_real (w ! i) * cis (- 2 * pi * real i * real j / real (length w))))"
    by (rule norm_sum)
  also have "\<dots> = (\<Sum>i<length w. \<bar>w ! i\<bar>)" by (simp add: norm_mult)
  also have "\<dots> \<le> (\<Sum>i<length w. c)"
    by (rule sum_mono) (use assms(2) in simp)
  also have "\<dots> = real (length w) * c" by simp
  finally show ?thesis .
qed

section \<open>Two small runs of the hop loop\<close>

lemma hop_body_3_0:
  "hop_body dft_r2c 3 [1, 0, 0, 2, 0, 0, 3, 0, 0, 4] 0
       \<lparr>in_buf = [], out_buf = [], freqArr = replicate 10 None, executed = []\<rparr>
     = Inr \<lparr>in_buf = [1, 0, 0], out_buf = [1, 1],
            freqArr = [Some (Finite 1), Some (Finite 1), None, None, None,
                       None, None, None, None, None],
            executed = [(0, [1, 0, 0])]\<rparr>"
  by (simp add: hop_body_def Let_def hop_window_def dft3 magnitude_1 eval_nat_numeral div3)

lemma hop_body_3_3:
  "hop_body dft_r2c 3 [1, 0, 0, 2, 0, 0, 3, 0, 0, 4] 3
       \<lparr>in_buf = [1, 0, 0], out_buf = [1, 1],
        freqArr = [Some (Finite 1), Some (Finite 1), None, None, None,
                   None, None, None, None, None],
        executed = [(0, [1, 0, 0])]\<rparr>
     = Inr \<lparr>in_buf = [2, 0, 0], out_buf = [2, 2],
            freqArr = [Some (Finite 1), Some (Finite 1), None, Some (Finite 2), Some (Finite 2),
                       None, None, None, None, None],
            executed = [(0, [1, 0, 0]), (3, [2, 0, 0])]\<rparr>"
  by (simp add: hop_body_def Let_def hop_window_def dft3 magnitude_2 eval_nat_numeral div3)

lemma hop_body_3_6:
  "hop_body dft_r2c 3 [1, 0, 0, 2, 0, 0, 3, 0, 0, 4] 6
       \<lparr>in_buf = [2, 0, 0], out_buf = [2, 2],
        freqArr = [Some (Finite 1), Some (Finite 1), None, Some (Finite 2), Some (Finite 2),
                   None, None, None, None, None],
        executed = [(0, [1, 0, 0]), (3, [2, 0, 0])]\<rparr>
     = Inr \<lparr>in_buf = [3, 0, 0], out_buf = [3, 3],
            freqArr = [Some (Finite 1), Some (Finite 1), None, Some (Finite 2), Some (Finite 2),
                       None, Some (Finite 3), Some (Finite 3), None, None],
            executed = [(0, [1, 0, 0]), (3, [2, 0, 0]), (6, [3, 0, 0])]\<rparr>"
  by (simp add: hop_body_def Let_def hop_window_def dft3 magnitude_3 eval_nat_numeral div3)

lemma hop_run_3:
  "hop_loop dft_r2c 3 10 [1, 0, 0, 2, 0, 0, 3, 0, 0, 4] 0
       \<lparr>in_buf = [], out_buf = [], freqArr = replicate 10 None, executed = []\<rparr>
     = Inr \<lparr>in_buf = [3, 0, 0], out_buf = [3, 3],
            freqArr = [Some (Finite 1), Some (Finite 1), None, Some (Finite 2), Some (Finite 2),
                       None, Some (Finite 3), Some (Finite 3), None, None],
            executed = [(0, [1, 0, 0]), (3, [2, 0, 0]), (6, [3, 0, 0])]\<rparr>"
proof -
  have s3: "hop_loop dft_r2c 3 10 left 9 st = Inr st" for left st
    by (subst hop_loop.simps) (simp add: INT_MAX_def)
  have s2: "hop_loop dft_r2c 3 10 [1, 0, 0, 2, 0, 0, 3, 0, 0, 4] 6
       \<lparr>in_buf = [2, 0, 0], out_buf = [2, 2],
        freqArr = [Some (Finite 1), Some (Finite 1), None, Some (Finite 2), Some (Finite 2),
                   None, None, None, None, None],
        executed = [(0, [1, 0, 0]), (3, [2, 0, 0])]\<rparr>
     = Inr \<lparr>in_buf = [3, 0, 0], out_buf = [3, 3],
            freqArr = [Some (Finite 1), Some (Finite 1), None, Some (Finite 2), Some (Finite 2),
                       None, Some (Finite 3), Some (Finite 3), None, None],
            executed = [(0, [1, 0, 0]), (3, [2, 0, 0]), (6, [3, 0, 0])]\<rparr>"
    by (subst hop_loop.simps) (simp add: INT_MAX_def hop_body_3_6 s3)
  have s1: "hop_loop dft_r2c 3 10 [1, 0, 0, 2, 0, 0, 3, 0, 0, 4] 3
       \<lparr>in_buf = [1, 0, 0], out_buf = [1, 1],
        freqArr = [Some (Finite 1), Some (Finite 1), None, None, None,
                   None, None, None, None, None],
        executed = [(0, [1, 0, 0])]\<rparr>
     = Inr \<lparr>in_buf = [3, 0, 0], out_buf = [3, 3],
            freqArr = [Some (Finite 1), Some (Finite 1), None, Some (Finite 2), Some (Finite 2),
                       None, Some (Finite 3), Some (Finite 3), None, None],
            executed = [(0, [1, 0, 0]), (3, [2, 0, 0]), (6, [3, 0, 0])]\<rparr>"
    by (subst hop_loop.simps) (simp add: INT_MAX_def hop_body_3_3 s2)
  show ?thesis
    by (subst hop_loop.simps) (simp add: INT_MAX_def hop_body_3_0 s1)
qed

lemma hop_body_4_0:
  "hop_body dft_r2c 4 [1, 0, 0, 0, 2, 0, 0, 0] 0
       \<lparr>in_buf = [], out_buf = [], freqArr = replicate 8 None, executed = []\<rparr>
     = Inr \<lparr>in_buf = [1, 0, 0, 0], out_buf = [1, 1, 1],
            freqArr = [Some (Finite 1), Some (Finite 1), Some (Finite 1), None,
                       None, None, None, None],
            executed = [(0, [1, 0, 0, 0])]\<rparr>"
  by (simp add: hop_body_def Let_def hop_window_def dft4 magnitude_1 eval_nat_numeral div4)

lemma hop_body_4_4:
  "hop_body dft_r2c 4 [1, 0, 0, 0, 2, 0, 0, 0] 4
       \<lparr>in_buf = [1, 0, 0, 0], out_buf = [1, 1, 1],
        freqArr = [Some (Finite 1), Some (Finite 1), Some (Finite 1), None,
                   None, None, None, None],
        executed = [(0, [1, 0, 0, 0])]\<rparr>
     = Inr \<lparr>in_buf = [2, 0, 0, 0], out_buf = [2, 2, 2],
            freqArr = [Some (Finite 1), Some (Finite 1), Some (Finite 1), None,
                       Some (Finite 2), Some (Finite 2), Some (Finite 2), None],
            executed = [(0, [1, 0, 0, 0]), (4, [2, 0, 0, 0])]\<rparr>"
  by (simp add: hop_body_def Let_def hop_window_def dft4 magnitude_2 eval_nat_numeral div4)

lemma hop_run_4:
  "hop_loop dft_r2c 4 8 [1, 0, 0, 0, 2, 0, 0, 0] 0
       \<lparr>in_buf = [], out_buf = [], freqArr = replicate 8 None, executed = []\<rparr>
     = Inr \<lparr>in_buf = [2, 0, 0, 0], out_buf = [2, 2, 2],
            freqArr = [Some (Finite 1), Some (Finite 1), Some (Finite 1), None,
                       Some (Finite 2), Some (Finite 2), Some (Finite 2), None],
            executed = [(0, [1, 0, 0, 0]), (4, [2, 0, 0, 0])]\<rparr>"
proof -
  have s2: "hop_loop dft_r2c 4 8 left 8 st = Inr st" for left st
    by (subst hop_loop.simps) (simp add: INT_MAX_def)
  have s1: "hop_loop dft_r2c 4 8 [1, 0, 0, 0, 2, 0, 0, 0] 4
       \<lparr>in_buf = [1, 0, 0, 0], out_buf = [1, 1, 1],
        freqArr = [Some (Finite 1), Some (Finite 1), Some (Finite 1), None,
                   None, None, None, None],
        executed = [(0, [1, 0, 0, 0])]\<rparr>
     = Inr \<lparr>in_buf = [2, 0, 0, 0], out_buf = [2, 2, 2],
            freqArr = [Some (Finite 1), Some (Finite 1), Some (Finite 1), None,
                       Some (Finite 2), Some (Finite 2), Some (Finite 2), None],
            executed = [(0, [1, 0, 0, 0]), (4, [2, 0, 0, 0])]\<rparr>"
    by (subst hop_loop.simps) (simp add: INT_MAX_def hop_body_4_4 s2)
  show ?thesis
    by (subst hop_loop.simps) (simp add: INT_MAX_def hop_body_4_0 s1)
qed

lemma dft_r2c_length: "length (dft_r2c w) = length w div 2 + 1"
  by (simp add: dft_r2c_def)

section \<open>Hop segmentation, bounds and the flat array\<close>

text \<open>
  C1, as the code has it.  For a positive hop length \<open>h\<close> and \<open>n\<close> samples such that
  the last test of the loop header, \<open>n div h * h + h\<close>, stays within \<open>INT_MAX\<close>, the
  loop ends and has called the transform exactly on the windows
  \<open>[k * h, k * h + h)\<close> for \<open>k < n div h\<close>, in this order: the window at \<open>k * h\<close> is
  the \<open>h\<close> samples from there, nothing is padded, the windows laid end to end are the
  first \<open>n div h * h\<close> samples, and fewer than \<open>h\<close> samples are dropped at the end.
\<close>

theorem hop_segmentation:
  "0 < h \<Longrightarrow> length left div h * h + h \<le> INT_MAX \<Longrightarrow>
   length (freqArr st) = length left \<Longrightarrow>
   \<forall>w. length w = h \<longrightarrow> h div 2 < length (fft w) \<Longrightarrow>
   \<exists>st'. hop_loop fft h (length left) left 0 st = Inr st'
     \<and> executed st' = executed st
           @ map (\<lambda>k. (k * h, take h (drop (k * h) left))) [0..<length left div h]
     \<and> concat (map (\<lambda>k. take h (drop (k * h) left)) [0..<length left div h])
           = take (length left div h * h) left
     \<and> length left - length left div h * h < h"
proof -
  assume h: "0 < h" and b: "length left div h * h + h \<le> INT_MAX"
    and f: "length (freqArr st) = length left"
    and t: "\<forall>w. length w = h \<longrightarrow> h div 2 < length (fft w)"
  from hop_loop_result [of h "length left" left fft st 0] h b f t obtain st' where
    r: "hop_loop fft h (length left) left 0 st = Inr st'"
    and e: "executed st' = executed st
         @ map (\<lambda>k. (0 + k * h, hop_window h left (0 + k * h))) [0..<(length left - 0) div h]"
    by auto
  have w: "hop_window h left (k * h) = take h (drop (k * h) left)" if "k < length left div h" for k
  proof -
    have "Suc k * h \<le> length left div h * h"
      using that by (simp add: Suc_leI mult_le_mono1 del: mult_Suc)
    also have "\<dots> \<le> length left" by simp
    finally show ?thesis by (simp add: hop_window_take_drop add.commute)
  qed
  have "map (\<lambda>k. (0 + k * h, hop_window h left (0 + k * h))) [0..<(length left - 0) div h]
      = map (\<lambda>k. (k * h, take h (drop (k * h) left))) [0..<length left div h]"
    using w by simp
  then have e': "executed st' = executed st
           @ map (\<lambda>k. (k * h, take h (drop (k * h) left))) [0..<length left div h]"
    using e by simp
  have cc: "concat (map (\<lambda>k. take h (drop (k * h) left)) [0..<length left div h])
           = take (length left div h * h) left"
    by (rule concat_windows) simp
  have rest: "length left - length left div h * h < h"
    using h by (metis minus_div_mult_eq_mod mod_less_divisor)
  show ?thesis using r e' cc rest by blast
qed

theorem hop_segmentation_witness:
  "hop_loop dft_r2c 3 (length [1, 0, 0, 2, 0, 0, 3, 0, 0, 4 :: real])
        [1, 0, 0, 2, 0, 0, 3, 0, 0, 4] 0
        \<lparr>in_buf = [], out_buf = [], freqArr = replicate 10 None, executed = []\<rparr>
      = Inr \<lparr>in_buf = [3, 0, 0], out_buf = [3, 3],
             freqArr = [Some (Finite 1), Some (Finite 1), None, Some (Finite 2), Some (Finite 2),
                        None, Some (Finite 3), Some (Finite 3), None, None],
             executed = [(0, [1, 0, 0]), (3, [2, 0, 0]), (6, [3, 0, 0])]\<rparr>
   \<and> map (\<lambda>k. (k * 3, take 3 (drop (k * 3) [1, 0, 0, 2, 0, 0, 3, 0, 0, 4 :: real])))
        [0..<length [1, 0, 0, 2, 0, 0, 3, 0, 0, 4 :: real] div 3]
      = [(0, [1, 0, 0]), (3, [2, 0, 0]), (6, [3, 0, 0])]
   \<and> take (length [1, 0, 0, 2, 0, 0, 3, 0, 0, 4 :: real] div 3 * 3) [1, 0, 0, 2, 0, 0, 3, 0, 0, 4 :: real]
      = [1, 0, 0, 2, 0, 0, 3, 0, 0]
   \<and> length [1, 0, 0, 2, 0, 0, 3, 0, 0, 4 :: real] - length [1, 0, 0, 2, 0, 0, 3, 0, 0, 4 :: real] div 3 * 3 = 1"
proof -
  let ?xs = "[1, 0, 0, 2, 0, 0, 3, 0, 0, 4 :: real]"
  let ?st = "\<lparr>in_buf = [], out_buf = [], freqArr = replicate 10 None, executed = []\<rparr>"
  have pos: "(0::nat) < 3" by simp
  have len: "length ?xs = 10" by simp
  have b: "length ?xs div 3 * 3 + 3 \<le> INT_MAX" by (simp add: INT_MAX_def)
  have f: "length (freqArr ?st) = length ?xs" by simp
  have t: "\<forall>w. length w = 3 \<longrightarrow> 3 div 2 < length (dft_r2c w)" by (simp add: dft_r2c_length)
  from hop_segmentation [OF pos b f t] obtain st' where
    r: "hop_loop dft_r2c 3 (length ?xs) ?xs 0 ?st = Inr st'"
    and e: "executed st' = executed ?st
           @ map (\<lambda>k. (k * 3, take 3 (drop (k * 3) ?xs))) [0..<length ?xs div 3]"
    by blast
  have run: "hop_loop dft_r2c 3 (length ?xs) ?xs 0 ?st
      = Inr \<lparr>in_buf = [3, 0, 0], out_buf = [3, 3],
             freqArr = [Some (Finite 1), Some (Finite 1), None, Some (Finite 2), Some (Finite 2),
                        None, Some (Finite 3), Some (Finite 3), None, None],
             executed = [(0, [1, 0, 0]), (3, [2, 0, 0]), (6, [3, 0, 0])]\<rparr>"
    by (simp only: len hop_run_3)
  have "Inr st' = (Inr \<lparr>in_buf = [3, 0, 0], out_buf = [3, 3],
             freqArr = [Some (Finite 1), Some (Finite 1), None, Some (Finite 2), Some (Finite 2),
                        None, Some (Finite 3), Some (Finite 3), None, None],
             executed = [(0, [1, 0, 0]), (3, [2, 0, 0]), (6, [3, 0, 0])]\<rparr> :: fault + hop_state)"
    by (rule trans [OF r [symmetric] run])
  then have "executed st' = [(0, [1, 0, 0]), (3, [2, 0, 0]), (6, [3, 0, 0])]" by auto
  then have m: "map (\<lambda>k. (k * 3, take 3 (drop (k * 3) ?xs))) [0..<length ?xs div 3]
      = [(0, [1, 0, 0]), (3, [2, 0, 0]), (6, [3, 0, 0])]"
    using e by simp
  have tk: "take (length ?xs div 3 * 3) ?xs = [1, 0, 0, 2, 0, 0, 3, 0, 0]" by simp
  have rest: "length ?xs - length ?xs div 3 * 3 = 1" by simp
  show ?thesis using run m tk rest by (intro conjI)
qed

text \<open>
  C1, as the claim has it, fails for a long input.  With the program's hop length and
  2147450400 mono samples the claim asks for 13435 windows; the test after the last of
  them computes 2147450400 + 159840, which is not an \<^verbatim>\<open>int\<close>.
\<close>

theorem hop_segmentation_counterexample:
  "hop_loop dft_r2c hopsize 2147450400 (replicate 2147450400 0) 0
       \<lparr>in_buf = [], out_buf = [], freqArr = replicate 2147450400 None, executed = []\<rparr>
     = Inl IntOverflow
   \<and> 2147450400 div hopsize = 13435
   \<and> INT_MAX < 2147450400 + hopsize"
proof -
  have h: "0 < hopsize" by (simp add: hopsize_def)
  have l: "(2147450400::nat) \<le> length (replicate 2147450400 (0::real))"
    by (simp only: length_replicate order_refl)
  have t: "\<forall>w. length w = hopsize \<longrightarrow> hopsize div 2 < length (dft_r2c w)"
    by (simp add: dft_r2c_length)
  have f: "(2147450400::nat) \<le> length (freqArr \<lparr>in_buf = [], out_buf = [],
      freqArr = replicate 2147450400 None, executed = []\<rparr>)"
    by (simp only: hop_state.simps length_replicate order_refl)
  have o: "INT_MAX < 0 + (2147450400 - 0) div hopsize * hopsize + hopsize"
    by (simp add: hopsize_def INT_MAX_def)
  have "hop_loop dft_r2c hopsize 2147450400 (replicate 2147450400 0) 0
       \<lparr>in_buf = [], out_buf = [], freqArr = replicate 2147450400 None, executed = []\<rparr>
     = Inl IntOverflow"
    by (rule hop_loop_overflow [OF h l t f o])
  moreover have "2147450400 div hopsize = 13435" by (simp add: hopsize_def)
  moreover have "INT_MAX < 2147450400 + hopsize" by (simp add: hopsize_def INT_MAX_def)
  ultimately show ?thesis by (intro conjI)
qed

text \<open>
  C9.  With the result array allocated for \<open>n2\<close> entries, where \<open>n2\<close> is half the
  sample count, no write of the loop falls outside it: every index \<open>i + j\<close> the loop
  writes (offset \<open>i\<close> with \<open>i + h \<le> n2\<close>, bin \<open>j \<le> h div 2\<close>) is below \<open>n2\<close>, for the
  program's hop length and for every positive one.  The run never ends in an access
  outside a block, and it ends without any fault when the loop header stays within
  \<open>INT_MAX\<close>.
\<close>

theorem hop_writes_in_bounds:
  "0 < h \<Longrightarrow> length left = n2 \<Longrightarrow> length (freqArr st) = n2 \<Longrightarrow>
   \<forall>w. length w = h \<longrightarrow> h div 2 < length (fft w) \<Longrightarrow>
     hop_loop fft h n2 left 0 st \<noteq> Inl OutOfBounds
   \<and> (n2 div h * h + h \<le> INT_MAX \<longrightarrow> (\<exists>st'. hop_loop fft h n2 left 0 st = Inr st'))
   \<and> (\<forall>i j. i + h \<le> n2 \<and> j \<le> h div 2 \<longrightarrow> i + j < n2)
   \<and> (\<forall>i j. i + hopsize \<le> n2 \<and> j \<le> hopsize div 2 \<longrightarrow> i + j < n2)"
proof -
  assume h: "0 < h" and l: "length left = n2" and f: "length (freqArr st) = n2"
    and t: "\<forall>w. length w = h \<longrightarrow> h div 2 < length (fft w)"
  have ok: "\<exists>st'. hop_loop fft h n2 left 0 st = Inr st'" if "n2 div h * h + h \<le> INT_MAX"
    using hop_loop_result [of h n2 left fft st 0] h l f t that by auto
  have ov: "hop_loop fft h n2 left 0 st = Inl IntOverflow" if "\<not> n2 div h * h + h \<le> INT_MAX"
    using hop_loop_overflow [of h n2 left fft st 0] h l f t that by auto
  have "hop_loop fft h n2 left 0 st \<noteq> Inl OutOfBounds"
  proof (cases "n2 div h * h + h \<le> INT_MAX")
    case True
    then show ?thesis using ok by auto
  next
    case False
    then show ?thesis using ov by simp
  qed
  moreover have "i + j < n2" if "i + h \<le> n2 \<and> j \<le> h div 2" for i j
  proof -
    have "h div 2 < h" using h by simp
    then show ?thesis using that by linarith
  qed
  moreover have "i + j < n2" if "i + hopsize \<le> n2 \<and> j \<le> hopsize div 2" for i j
    using that by (simp add: hopsize_def)
  ultimately show ?thesis using ok by blast
qed

theorem hop_writes_in_bounds_witness:
  "hop_loop dft_r2c 4 8 [1, 0, 0, 0, 2, 0, 0, 0] 0
       \<lparr>in_buf = [], out_buf = [], freqArr = replicate 8 None, executed = []\<rparr>
     \<noteq> Inl OutOfBounds
   \<and> 8 div 4 * 4 + 4 \<le> INT_MAX
   \<and> (\<exists>st'. hop_loop dft_r2c 4 8 [1, 0, 0, 0, 2, 0, 0, 0] 0
          \<lparr>in_buf = [], out_buf = [], freqArr = replicate 8 None, executed = []\<rparr> = Inr st')
   \<and> 4 + 4 \<le> (8::nat) \<and> (2::nat) \<le> 4 div 2 \<and> 4 + 2 < (8::nat)"
proof -
  have t: "\<forall>w. length w = 4 \<longrightarrow> 4 div 2 < length (dft_r2c w)"
    by (simp add: dft_r2c_length)
  have pos: "(0::nat) < 4" by simp
  have l: "length [1, 0, 0, 0, 2, 0, 0, 0 :: real] = 8" by simp
  have f: "length (freqArr \<lparr>in_buf = [], out_buf = [], freqArr = replicate 8 None,
      executed = []\<rparr>) = 8" by simp
  have b: "8 div 4 * 4 + 4 \<le> INT_MAX" by (simp add: INT_MAX_def)
  from hop_writes_in_bounds [OF pos l f t] b
  have "hop_loop dft_r2c 4 8 [1, 0, 0, 0, 2, 0, 0, 0] 0
       \<lparr>in_buf = [], out_buf = [], freqArr = replicate 8 None, executed = []\<rparr>
     \<noteq> Inl OutOfBounds"
    and "\<exists>st'. hop_loop dft_r2c 4 8 [1, 0, 0, 0, 2, 0, 0, 0] 0
          \<lparr>in_buf = [], out_buf = [], freqArr = replicate 8 None, executed = []\<rparr> = Inr st'"
    by blast+
  then show ?thesis using b by simp
qed

text \<open>
  C5, as the code has it.  The flat array is indexed by the absolute offset, and hop
  \<open>k\<close> writes the entries \<open>k * h + j\<close> for \<open>j \<le> h div 2\<close>.  As \<open>h div 2 < h\<close>, no
  two hops write the same entry: when the loop header stays within \<open>INT_MAX\<close>, after
  the run every bin of every hop is still in its entry, and the entries whose index
  modulo \<open>h\<close> exceeds \<open>h div 2\<close>, or that lie past the last full hop, were never
  written.
\<close>

theorem flat_array_hops_disjoint:
  "0 < h \<Longrightarrow> length left = n2 \<Longrightarrow> length (freqArr st) = n2 \<Longrightarrow>
   n2 div h * h + h \<le> INT_MAX \<Longrightarrow>
   \<forall>w. length w = h \<longrightarrow> h div 2 < length (fft w) \<Longrightarrow>
   \<exists>st'. hop_loop fft h n2 left 0 st = Inr st'
     \<and> (\<forall>k j. k < n2 div h \<and> j \<le> h div 2 \<longrightarrow>
          freqArr st' ! (k * h + j) = Some (magnitude (fft (hop_window h left (k * h)) ! j)))
     \<and> (\<forall>p. p < n2 \<and> (n2 div h * h \<le> p \<or> h div 2 < p mod h) \<longrightarrow>
          freqArr st' ! p = freqArr st ! p)"
proof -
  assume h: "0 < h" and l: "length left = n2" and f: "length (freqArr st) = n2"
    and b: "n2 div h * h + h \<le> INT_MAX"
    and t: "\<forall>w. length w = h \<longrightarrow> h div 2 < length (fft w)"
  from hop_loop_result [of h n2 left fft st 0] h l f t b obtain st' where
    r: "hop_loop fft h n2 left 0 st = Inr st'"
    and w: "\<forall>k j. k < (n2 - 0) div h \<longrightarrow> j \<le> h div 2 \<longrightarrow>
          freqArr st' ! (0 + k * h + j) =
            Some (magnitude (fft (hop_window h left (0 + k * h)) ! j))"
    and u: "\<forall>p<length (freqArr st).
          (p < 0 \<or> 0 + (n2 - 0) div h * h \<le> p \<or> h div 2 < (p - 0) mod h) \<longrightarrow>
          freqArr st' ! p = freqArr st ! p"
    by auto
  have "\<forall>k j. k < n2 div h \<and> j \<le> h div 2 \<longrightarrow>
          freqArr st' ! (k * h + j) = Some (magnitude (fft (hop_window h left (k * h)) ! j))"
    using w by simp
  moreover have "\<forall>p. p < n2 \<and> (n2 div h * h \<le> p \<or> h div 2 < p mod h) \<longrightarrow>
          freqArr st' ! p = freqArr st ! p"
    using u f by auto
  ultimately show ?thesis using r by blast
qed

theorem flat_array_hops_disjoint_witness:
  "hop_loop dft_r2c 4 8 [1, 0, 0, 0, 2, 0, 0, 0] 0
       \<lparr>in_buf = [], out_buf = [], freqArr = replicate 8 None, executed = []\<rparr>
     = Inr \<lparr>in_buf = [2, 0, 0, 0], out_buf = [2, 2, 2],
            freqArr = [Some (Finite 1), Some (Finite 1), Some (Finite 1), None,
                       Some (Finite 2), Some (Finite 2), Some (Finite 2), None],
            executed = [(0, [1, 0, 0, 0]), (4, [2, 0, 0, 0])]\<rparr>
   \<and> Some (magnitude (dft_r2c (hop_window 4 [1, 0, 0, 0, 2, 0, 0, 0] (0 * 4)) ! 2))
       = Some (Finite 1)
   \<and> Some (magnitude (dft_r2c (hop_window 4 [1, 0, 0, 0, 2, 0, 0, 0] (1 * 4)) ! 0))
       = Some (Finite 2)
   \<and> replicate 8 (None :: double option) ! 3 = None
   \<and> 8 div 4 * 4 + 4 \<le> INT_MAX"
proof -
  let ?st = "\<lparr>in_buf = [], out_buf = [], freqArr = replicate 8 None, executed = []\<rparr>"
  let ?fin = "\<lparr>in_buf = [2, 0, 0, 0], out_buf = [2, 2, 2],
            freqArr = [Some (Finite 1), Some (Finite 1), Some (Finite 1), None,
                       Some (Finite 2), Some (Finite 2), Some (Finite 2), None],
            executed = [(0, [1, 0, 0, 0]), (4, [2, 0, 0, 0 :: real])]\<rparr>"
  have t: "\<forall>w. length w = 4 \<longrightarrow> 4 div 2 < length (dft_r2c w)"
    by (simp add: dft_r2c_length)
  have pos: "(0::nat) < 4" by simp
  have l: "length [1, 0, 0, 0, 2, 0, 0, 0 :: real] = 8" by simp
  have f: "length (freqArr ?st) = 8" by simp
  have b: "8 div 4 * 4 + 4 \<le> INT_MAX" by (simp add: INT_MAX_def)
  from flat_array_hops_disjoint [OF pos l f b t] obtain st' where
    r: "hop_loop dft_r2c 4 8 [1, 0, 0, 0, 2, 0, 0, 0] 0 ?st = Inr st'"
    and w: "\<forall>k j. k < 8 div 4 \<and> j \<le> 4 div 2 \<longrightarrow>
          freqArr st' ! (k * 4 + j)
            = Some (magnitude (dft_r2c (hop_window 4 [1, 0, 0, 0, 2, 0, 0, 0] (k * 4)) ! j))"
    and u: "\<forall>p. p < 8 \<and> (8 div 4 * 4 \<le> p \<or> 4 div 2 < p mod 4) \<longrightarrow>
          freqArr st' ! p = freqArr ?st ! p"
    by blast
  have "Inr st' = (Inr ?fin :: fault + hop_state)"
    by (rule trans [OF r [symmetric] hop_run_4])
  then have st': "st' = ?fin" by (simp only: sum.inject)
  have a: "freqArr st' ! (0 * 4 + 2)
       = Some (magnitude (dft_r2c (hop_window 4 [1, 0, 0, 0, 2, 0, 0, 0] (0 * 4)) ! 2))"
    by (rule w [rule_format]) simp
  have a': "freqArr st' ! (0 * 4 + 2) = Some (Finite 1)" unfolding st' by simp
  have c: "freqArr st' ! (1 * 4 + 0)
       = Some (magnitude (dft_r2c (hop_window 4 [1, 0, 0, 0, 2, 0, 0, 0] (1 * 4)) ! 0))"
    by (rule w [rule_format]) simp
  have c': "freqArr st' ! (1 * 4 + 0) = Some (Finite 2)" unfolding st' by simp
  have d: "replicate 8 (None :: double option) ! 3 = None" by simp
  show ?thesis
    using hop_run_4 trans [OF a [symmetric] a'] trans [OF c [symmetric] c'] d b
    by (intro conjI)
qed

text \<open>
  C5, as the claim has it, fails.  Hop length 4 (three bins per hop, fewer than 4), eight
  samples: the second hop writes the entries 4, 5 and 6 and leaves the three bins of the
  first hop, in the entries 0, 1 and 2, as they were.
\<close>

theorem flat_array_overwrite_counterexample:
  "(4::nat) div 2 + 1 < 4
   \<and> hop_body dft_r2c 4 [1, 0, 0, 0, 2, 0, 0, 0] 0
       \<lparr>in_buf = [], out_buf = [], freqArr = replicate 8 None, executed = []\<rparr>
     = Inr \<lparr>in_buf = [1, 0, 0, 0], out_buf = [1, 1, 1],
            freqArr = [Some (Finite 1), Some (Finite 1), Some (Finite 1), None,
                       None, None, None, None],
            executed = [(0, [1, 0, 0, 0])]\<rparr>
   \<and> hop_body dft_r2c 4 [1, 0, 0, 0, 2, 0, 0, 0] 4
       \<lparr>in_buf = [1, 0, 0, 0], out_buf = [1, 1, 1],
        freqArr = [Some (Finite 1), Some (Finite 1), Some (Finite 1), None,
                   None, None, None, None],
        executed = [(0, [1, 0, 0, 0])]\<rparr>
     = Inr \<lparr>in_buf = [2, 0, 0, 0], out_buf = [2, 2, 2],
            freqArr = [Some (Finite 1), Some (Finite 1), Some (Finite 1), None,
                       Some (Finite 2), Some (Finite 2), Some (Finite 2), None],
            executed = [(0, [1, 0, 0, 0]), (4, [2, 0, 0, 0])]\<rparr>
   \<and> hop_loop dft_r2c 4 8 [1, 0, 0, 0, 2, 0, 0, 0] 0
       \<lparr>in_buf = [], out_buf = [], freqArr = replicate 8 None, executed = []\<rparr>
     = Inr \<lparr>in_buf = [2, 0, 0, 0], out_buf = [2, 2, 2],
            freqArr = [Some (Finite 1), Some (Finite 1), Some (Finite 1), None,
                       Some (Finite 2), Some (Finite 2), Some (Finite 2), None],
            executed = [(0, [1, 0, 0, 0]), (4, [2, 0, 0, 0])]\<rparr>
   \<and> take 3 [Some (Finite 1), Some (Finite 1), Some (Finite 1), None,
              Some (Finite 2), Some (Finite 2), Some (Finite 2), None]
     = take 3 [Some (Finite 1), Some (Finite 1), Some (Finite 1), None,
               None, None, None, None]"
proof -
  have a: "(4::nat) div 2 + 1 < 4" by simp
  have e: "take 3 [Some (Finite 1), Some (Finite 1), Some (Finite 1), None,
              Some (Finite 2), Some (Finite 2), Some (Finite 2), None]
     = take 3 [Some (Finite 1), Some (Finite 1), Some (Finite 1), None,
               None, None, None, None]" by simp
  show ?thesis using a hop_body_4_0 hop_body_4_4 hop_run_4 e by (intro conjI)
qed

section \<open>The magnitudes of one hop\<close>

text \<open>The extracted samples are 16-bit values.\<close>

lemma leftChanelSamples_range:
  assumes "leftChanelSamples a = Inr left" and "x \<in> set left"
  shows "\<bar>x\<bar> \<le> 32768"
proof -
  from assms obtain w :: "16 word" where x: "x = real_of_int (sint w)"
    by (auto simp: leftChanelSamples_def split: if_splits)
  have "- (2 ^ (LENGTH(16) - 1)) \<le> sint w" by (rule sint_ge)
  moreover have "sint w < 2 ^ (LENGTH(16) - 1)" by (rule sint_lt)
  ultimately have "- 32768 \<le> sint w" "sint w < 32768" by simp_all
  then show ?thesis unfolding x by linarith
qed

lemma hop_window_set:
  "i + h \<le> length left \<Longrightarrow> set (hop_window h left i) \<subseteq> set left"
  by (auto simp: hop_window_def)

lemma hop_window_length [simp]: "length (hop_window h left i) = h"
  by (simp add: hop_window_def)

text \<open>
  The bins of the exact transform of a window of 16-bit samples are far below the
  square root of the largest double.
\<close>

lemma short_window_bins:
  assumes "leftChanelSamples a = Inr left" and "i + h \<le> length left" and "h \<le> INT_MAX"
    and "j \<le> h div 2"
  shows "cmod (dft_r2c (hop_window h left i) ! j) \<le> 2 ^ 499"
proof -
  have "\<forall>x\<in>set (hop_window h left i). \<bar>x\<bar> \<le> 32768"
    using leftChanelSamples_range [OF assms(1)] hop_window_set [OF assms(2)] by blast
  then have "cmod (dft_r2c (hop_window h left i) ! j)
      \<le> real (length (hop_window h left i)) * 32768"
    using assms(4) by (intro dft_r2c_bound) simp_all
  also have "\<dots> = real h * 2 ^ 15" by simp
  also have "\<dots> \<le> 2 ^ 31 * 2 ^ 15"
  proof (rule mult_right_mono)
    have "h \<le> 2 ^ 31" using assms(3) by (simp add: INT_MAX_def)
    then have "real h \<le> real (2 ^ 31)" by (simp only: of_nat_le_iff)
    then show "real h \<le> 2 ^ 31" by simp
  qed simp
  also have "\<dots> = (2::real) ^ 46" by (simp flip: power_add)
  also have "\<dots> \<le> 2 ^ 499" by (rule power_increasing) simp_all
  finally show ?thesis .
qed

text \<open>The same formula on a bin above the square root of the largest double overflows.\<close>

lemma magnitude_overflow: "magnitude (Complex (2 ^ 600) 0) = NotFinite"
proof -
  define T :: real where "T = 2 ^ 1200"
  have e: "(2::real) ^ 600 * 2 ^ 600 = T" unfolding T_def by (simp only: flip: power_add) simp
  have "DBL_MAX < 2 ^ 53 * 2 ^ 971"
    unfolding DBL_MAX_def by (rule mult_strict_right_mono) simp_all
  also have "\<dots> = 2 ^ 1024" by (simp only: flip: power_add) simp
  also have "(2::real) ^ 1024 \<le> 2 ^ 1200" by (rule power_increasing) simp_all
  finally have big: "DBL_MAX < T" unfolding T_def .
  have "T = of_int 1 * 2 powr of_int 1200" unfolding T_def by (simp add: powr_realpow)
  then have x: "to_double T = T"
    by (rule to_double_exact) simp_all
  have "0 < T" unfolding T_def by simp
  then have "\<not> \<bar>to_double T\<bar> \<le> DBL_MAX" using big unfolding x by simp
  then have "dbl T = NotFinite" by (simp only: dbl_def if_False)
  then have "dmul (Finite (2 ^ 600)) (Finite (2 ^ 600)) = NotFinite"
    by (simp only: dmul.simps e)
  then show ?thesis by (simp add: magnitude_def)
qed

text \<open>
  C6.  One pass of the loop body at offset \<open>i\<close>, on the samples the program extracts
  (16-bit values) and with a transform whose bins are finite doubles within
  \<open>2 ^ 499\<close> of the exact transform: exactly the \<open>h div 2 + 1\<close> entries
  \<open>i, \<dots>, i + h div 2\<close> of the result array are written; entry \<open>i + j\<close> is
  \<open>sqrt (Re\<^sup>2 + Im\<^sup>2)\<close> of bin \<open>j\<close>, every operation rounded to double; it is a
  finite double (neither NaN nor infinite) and not negative.
\<close>

theorem hop_magnitudes_finite:
  "leftChanelSamples a = Inr left \<Longrightarrow> 0 < h \<Longrightarrow> h \<le> INT_MAX \<Longrightarrow>
   i + h \<le> length left \<Longrightarrow> i + h \<le> length (freqArr st) \<Longrightarrow>
   h div 2 < length (fft (hop_window h left i)) \<Longrightarrow>
   \<forall>j\<le>h div 2. cmod (fft (hop_window h left i) ! j - dft_r2c (hop_window h left i) ! j)
        \<le> 2 ^ 499 \<Longrightarrow>
   \<exists>st'. hop_body fft h left i st = Inr st'
     \<and> length (freqArr st') = length (freqArr st)
     \<and> (\<forall>j\<le>h div 2.
          freqArr st' ! (i + j) =
            Some (Finite (to_double (sqrt (to_double
              (to_double (Re (fft (hop_window h left i) ! j) * Re (fft (hop_window h left i) ! j))
               + to_double (Im (fft (hop_window h left i) ! j) * Im (fft (hop_window h left i) ! j)))))))
          \<and> 0 \<le> to_double (sqrt (to_double
              (to_double (Re (fft (hop_window h left i) ! j) * Re (fft (hop_window h left i) ! j))
               + to_double (Im (fft (hop_window h left i) ! j) * Im (fft (hop_window h left i) ! j))))))
     \<and> (\<forall>p<length (freqArr st). p < i \<or> i + h div 2 < p \<longrightarrow> freqArr st' ! p = freqArr st ! p)"
proof -
  assume a: "leftChanelSamples a = Inr left" and h: "0 < h" and hm: "h \<le> INT_MAX"
    and l: "i + h \<le> length left" and f: "i + h \<le> length (freqArr st)"
    and t: "h div 2 < length (fft (hop_window h left i))"
    and acc: "\<forall>j\<le>h div 2.
        cmod (fft (hop_window h left i) ! j - dft_r2c (hop_window h left i) ! j) \<le> 2 ^ 499"
  define w where "w = hop_window h left i"
  from hop_body_result [where fft = fft and h = h and i = i and left = left and st = st, OF h l f t] obtain st' where
    r: "hop_body fft h left i st = Inr st'"
    and len: "length (freqArr st') = length (freqArr st)"
    and wr: "\<forall>p<length (freqArr st). freqArr st' ! p =
              (if i \<le> p \<and> p \<le> i + h div 2
               then Some (magnitude (fft w ! (p - i)))
               else freqArr st ! p)"
    unfolding w_def by blast
  have bound: "cmod (fft w ! j) \<le> 2 ^ 500" if j: "j \<le> h div 2" for j
  proof -
    have "cmod (fft w ! j) \<le> cmod (dft_r2c w ! j) + cmod (fft w ! j - dft_r2c w ! j)"
      by (rule norm_triangle_sub)
    also have "\<dots> \<le> 2 ^ 499 + 2 ^ 499"
      using short_window_bins [OF a l hm j] acc j unfolding w_def by (intro add_mono) simp_all
    also have "\<dots> = (2::real) ^ 500" by simp
    finally show ?thesis .
  qed
  have "freqArr st' ! (i + j) =
            Some (Finite (to_double (sqrt (to_double
              (to_double (Re (fft w ! j) * Re (fft w ! j))
               + to_double (Im (fft w ! j) * Im (fft w ! j)))))))
          \<and> 0 \<le> to_double (sqrt (to_double
              (to_double (Re (fft w ! j) * Re (fft w ! j))
               + to_double (Im (fft w ! j) * Im (fft w ! j)))))"
    if j: "j \<le> h div 2" for j
  proof -
    have "h div 2 < h" using h by simp
    then have "i + j < length (freqArr st)" using j f by linarith
    then have "freqArr st' ! (i + j) = Some (magnitude (fft w ! j))"
      using wr j by simp
    then show ?thesis using magnitude_Finite [OF bound [OF j]] by simp
  qed
  moreover have "\<forall>p<length (freqArr st). p < i \<or> i + h div 2 < p \<longrightarrow>
      freqArr st' ! p = freqArr st ! p"
    using wr by auto
  ultimately show ?thesis using r len unfolding w_def by blast
qed

theorem hop_magnitudes_finite_witness:
  "leftChanelSamples \<lparr>samples = [1, 7, 0, 7, 0, 7, 0, 7, 2, 7, 0, 7, 0, 7, 0, 7],
       num_samples = 16, sample_rate = 44100, channels = 2\<rparr> = Inr [1, 0, 0, 0, 2, 0, 0, 0]
   \<and> hop_body dft_r2c 4 [1, 0, 0, 0, 2, 0, 0, 0] 4
       \<lparr>in_buf = [1, 0, 0, 0], out_buf = [1, 1, 1],
        freqArr = [Some (Finite 1), Some (Finite 1), Some (Finite 1), None,
                   None, None, None, None],
        executed = [(0, [1, 0, 0, 0])]\<rparr>
     = Inr \<lparr>in_buf = [2, 0, 0, 0], out_buf = [2, 2, 2],
            freqArr = [Some (Finite 1), Some (Finite 1), Some (Finite 1), None,
                       Some (Finite 2), Some (Finite 2), Some (Finite 2), None],
            executed = [(0, [1, 0, 0, 0]), (4, [2, 0, 0, 0])]\<rparr>
   \<and> Some (Finite (to_double (sqrt (to_double
              (to_double (Re (dft_r2c (hop_window 4 [1, 0, 0, 0, 2, 0, 0, 0] 4) ! 1)
                          * Re (dft_r2c (hop_window 4 [1, 0, 0, 0, 2, 0, 0, 0] 4) ! 1))
               + to_double (Im (dft_r2c (hop_window 4 [1, 0, 0, 0, 2, 0, 0, 0] 4) ! 1)
                            * Im (dft_r2c (hop_window 4 [1, 0, 0, 0, 2, 0, 0, 0] 4) ! 1)))))))
       = Some (Finite 2)"
proof -
  let ?a = "\<lparr>samples = [1, 7, 0, 7, 0, 7, 0, 7, 2, 7, 0, 7, 0, 7, 0, 7],
       num_samples = 16, sample_rate = 44100, channels = 2\<rparr>"
  let ?left = "[1, 0, 0, 0, 2, 0, 0, 0 :: real]"
  let ?st = "\<lparr>in_buf = [1, 0, 0, 0], out_buf = [1, 1, 1],
        freqArr = [Some (Finite 1), Some (Finite 1), Some (Finite 1), None,
                   None, None, None, None],
        executed = [(0, [1, 0, 0, 0 :: real])]\<rparr>"
  let ?fin = "\<lparr>in_buf = [2, 0, 0, 0], out_buf = [2, 2, 2],
            freqArr = [Some (Finite 1), Some (Finite 1), Some (Finite 1), None,
                       Some (Finite 2), Some (Finite 2), Some (Finite 2), None],
            executed = [(0, [1, 0, 0, 0]), (4, [2, 0, 0, 0 :: real])]\<rparr>"
  have a: "leftChanelSamples ?a = Inr ?left"
    by (simp add: leftChanelSamples_def upt_conv_Cons)
  have pos: "(0::nat) < 4" by simp
  have hm: "4 \<le> INT_MAX" by (simp add: INT_MAX_def)
  have l: "4 + 4 \<le> length ?left" by simp
  have f: "4 + 4 \<le> length (freqArr ?st)" by simp
  have t: "4 div 2 < length (dft_r2c (hop_window 4 ?left 4))"
    by (simp add: dft_r2c_length)
  have acc: "\<forall>j\<le>4 div 2. cmod (dft_r2c (hop_window 4 ?left 4) ! j
       - dft_r2c (hop_window 4 ?left 4) ! j) \<le> 2 ^ 499"
    by simp
  from hop_magnitudes_finite [where fft = dft_r2c and h = 4 and i = 4 and left = ?left
      and st = ?st and a = ?a, OF a pos hm l f t acc] obtain st' where
    r: "hop_body dft_r2c 4 ?left 4 ?st = Inr st'"
    and w: "\<forall>j\<le>4 div 2.
          freqArr st' ! (4 + j) =
            Some (Finite (to_double (sqrt (to_double
              (to_double (Re (dft_r2c (hop_window 4 ?left 4) ! j) * Re (dft_r2c (hop_window 4 ?left 4) ! j))
               + to_double (Im (dft_r2c (hop_window 4 ?left 4) ! j) * Im (dft_r2c (hop_window 4 ?left 4) ! j)))))))
          \<and> 0 \<le> to_double (sqrt (to_double
              (to_double (Re (dft_r2c (hop_window 4 ?left 4) ! j) * Re (dft_r2c (hop_window 4 ?left 4) ! j))
               + to_double (Im (dft_r2c (hop_window 4 ?left 4) ! j) * Im (dft_r2c (hop_window 4 ?left 4) ! j)))))"
    by blast
  have "Inr st' = (Inr ?fin :: fault + hop_state)"
    by (rule trans [OF r [symmetric] hop_body_4_4])
  then have st': "st' = ?fin" by (simp only: sum.inject)
  have one: "(1::nat) \<le> 4 div 2" by simp
  have v: "freqArr st' ! (4 + 1) = Some (Finite 2)" unfolding st' by simp
  have "Some (Finite (to_double (sqrt (to_double
              (to_double (Re (dft_r2c (hop_window 4 ?left 4) ! 1) * Re (dft_r2c (hop_window 4 ?left 4) ! 1))
               + to_double (Im (dft_r2c (hop_window 4 ?left 4) ! 1) * Im (dft_r2c (hop_window 4 ?left 4) ! 1)))))))
       = Some (Finite 2)"
    using w [rule_format, OF one] v by (simp only:)
  then show ?thesis using a hop_body_4_4 by (intro conjI)
qed

section \<open>The read loop\<close>

lemma size_t_id: "n < 2 ^ 64 \<Longrightarrow> size_t (int n) = n"
proof -
  assume "n < 2 ^ 64"
  then have "int n < int (2 ^ 64)" by (simp only: of_nat_less_iff)
  then have "int n < 2 ^ 64" by simp
  then have "int n mod 2 ^ 64 = int n" by (intro mod_pos_pos_trivial) simp_all
  then show ?thesis by (simp only: size_t_def nat_int)
qed

lemma size_t_add: "a + b < 2 ^ 64 \<Longrightarrow> size_t (int a + int b) = a + b"
  using size_t_id [of "a + b"] by simp

lemma size_t_double: "a * 2 < 2 ^ 64 \<Longrightarrow> size_t (int a * 2) = a * 2"
  using size_t_id [of "a * 2"] by simp

lemma copy_block_append:
  "copy_block blk t (js @ ks) b =
     (case copy_block blk t js b of Inl e \<Rightarrow> Inl e | Inr b1 \<Rightarrow> copy_block blk t ks b1)"
  by (induction js arbitrary: b) auto

lemma copy_block_upt:
  "t + n \<le> length b \<Longrightarrow> n \<le> length blk \<Longrightarrow> length b < 2 ^ 64 \<Longrightarrow>
   \<exists>b'. copy_block blk t [0..<n] b = Inr b' \<and> length b' = length b \<and>
     (\<forall>p<length b. b' ! p = (if t \<le> p \<and> p < t + n then Some (blk ! (p - t)) else b ! p))"
proof (induction n)
  case 0
  then show ?case by auto
next
  case (Suc n)
  then obtain b1 where c: "copy_block blk t [0..<n] b = Inr b1"
    and l: "length b1 = length b"
    and v: "\<forall>p<length b. b1 ! p = (if t \<le> p \<and> p < t + n then Some (blk ! (p - t)) else b ! p)"
    by auto
  have w: "size_t (int t + int n) = t + n"
    using Suc.prems by (intro size_t_add) linarith
  let ?b' = "b1[t + n := Some (blk ! n)]"
  have "copy_block blk t [0..<Suc n] b = Inr ?b'"
    using Suc.prems c l w by (simp add: copy_block_append)
  moreover have "length ?b' = length b" using l by simp
  moreover have "\<forall>p<length b. ?b' ! p =
      (if t \<le> p \<and> p < t + Suc n then Some (blk ! (p - t)) else b ! p)"
  proof (intro allI impI)
    fix p assume p: "p < length b"
    show "?b' ! p = (if t \<le> p \<and> p < t + Suc n then Some (blk ! (p - t)) else b ! p)"
    proof (cases "p = t + n")
      case True
      then show ?thesis using p l by simp
    next
      case False
      then have "?b' ! p = b1 ! p" by simp
      then show ?thesis using v p False by auto
    qed
  qed
  ultimately show ?case by blast
qed

text \<open>A copy that reaches past the block is a fault.\<close>

lemma copy_block_past:
  "length b < t + n \<Longrightarrow> t \<le> length b \<Longrightarrow> n \<le> length blk \<Longrightarrow> length b < 2 ^ 64 \<Longrightarrow>
   copy_block blk t [0..<n] b = Inl OutOfBounds"
proof (induction n)
  case 0
  then show ?case by simp
next
  case (Suc n)
  show ?case
  proof (cases "length b < t + n")
    case True
    then have "copy_block blk t [0..<n] b = Inl OutOfBounds"
      using Suc by simp
    then show ?thesis by (simp add: copy_block_append)
  next
    case False
    then have e: "t + n = length b" using Suc.prems by simp
    from False Suc.prems obtain b1 where c: "copy_block blk t [0..<n] b = Inr b1"
      and l: "length b1 = length b"
      using copy_block_upt [of t n b blk] by auto
    have w: "size_t (int t + int n) = t + n"
      using Suc.prems e by (intro size_t_add) linarith
    show ?thesis using c l e w by (simp add: copy_block_append)
  qed
qed

text \<open>
  One pass of the loop body from a state in which the block has \<open>capacity\<close> cells and
  the count fits, far from the end of the address space.
\<close>

lemma append_block_step:
  assumes inv: "length (buf st) = capacity st" "total_samples st \<le> capacity st"
    and cap: "capacity st < 2 ^ 62" and len: "length blk < 2 ^ 62"
  shows "append_block ok st blk =
     (if total_samples st + length blk \<le> capacity st
      then Inr \<lparr>buf = take (total_samples st) (buf st) @ map Some blk
                      @ drop (total_samples st + length blk) (buf st),
                capacity = capacity st,
                total_samples = total_samples st + length blk\<rparr>
      else if \<not> ok (capacity st * 2 * 2) then Inl OutOfMemory
      else if total_samples st + length blk \<le> capacity st * 2
      then Inr \<lparr>buf = take (total_samples st) (buf st) @ map Some blk
                      @ replicate (capacity st * 2 - (total_samples st + length blk)) None,
                capacity = capacity st * 2,
                total_samples = total_samples st + length blk\<rparr>
      else Inl OutOfBounds)"
proof -
  let ?n = "length blk"
  let ?t = "total_samples st"
  have p62: "(2::nat) ^ 62 * 2 = 2 ^ 63" "(2::nat) ^ 63 * 2 = 2 ^ 64" by simp_all
  have s1: "size_t (int ?t + int ?n) = ?t + ?n"
    using inv cap len p62 by (intro size_t_add) linarith
  have s2: "size_t (int (capacity st) * 2) = capacity st * 2"
    using cap p62 by (intro size_t_double) linarith
  have s3: "size_t (int (capacity st * 2) * 2) = capacity st * 2 * 2"
    using cap p62 by (intro size_t_double) linarith
  have cl: "capacity st * 2 < 2 ^ 64" using cap p62 by linarith
  have cl1: "capacity st < 2 ^ 64" using cl by linarith
  show ?thesis
  proof (cases "?t + ?n \<le> capacity st")
    case True
    have g: "grow ok st ?n = Inr st" using True s1 by (simp add: grow_def)
    have fit: "?t + ?n \<le> length (buf st)" using True inv by simp
    from copy_block_upt [OF fit order_refl] cl1 inv obtain b' where
      c: "copy_block blk ?t [0..<?n] (buf st) = Inr b'"
      and l: "length b' = length (buf st)"
      and v: "\<forall>p<length (buf st). b' ! p =
          (if ?t \<le> p \<and> p < ?t + ?n then Some (blk ! (p - ?t)) else buf st ! p)"
      by auto
    have "b' = take ?t (buf st) @ map Some blk @ drop (?t + ?n) (buf st)"
    proof (rule nth_equalityI)
      show "length b' = length (take ?t (buf st) @ map Some blk @ drop (?t + ?n) (buf st))"
        using l fit by simp
    next
      fix p assume "p < length b'"
      then have p: "p < length (buf st)" using l by simp
      show "b' ! p = (take ?t (buf st) @ map Some blk @ drop (?t + ?n) (buf st)) ! p"
        using v p fit by (auto simp: nth_append)
    qed
    then show ?thesis using True g c s1 by (simp add: append_block_def)
  next
    case False
    show ?thesis
    proof (cases "ok (capacity st * 2 * 2)")
      case no: False
      then show ?thesis using False s1 s2 s3 by (simp add: grow_def append_block_def Let_def)
    next
      case yes: True
      let ?b1 = "buf st @ replicate (capacity st) None"
      let ?st1 = "st\<lparr>capacity := capacity st * 2, buf := ?b1\<rparr>"
      have g: "grow ok st ?n = Inr ?st1"
        using False yes s1 s2 s3 inv by (simp add: grow_def Let_def mult_2_right)
      have l1: "length ?b1 = capacity st * 2" using inv by simp
      show ?thesis
      proof (cases "?t + ?n \<le> capacity st * 2")
        case fits: True
        have fit: "?t + ?n \<le> length ?b1" using fits l1 by simp
        from copy_block_upt [OF fit order_refl] cl l1 obtain b' where
          c: "copy_block blk ?t [0..<?n] ?b1 = Inr b'"
          and l: "length b' = length ?b1"
          and v: "\<forall>p<length ?b1. b' ! p =
              (if ?t \<le> p \<and> p < ?t + ?n then Some (blk ! (p - ?t)) else ?b1 ! p)"
          by auto
        have "b' = take ?t (buf st) @ map Some blk
                      @ replicate (capacity st * 2 - (?t + ?n)) None"
        proof (rule nth_equalityI)
          show "length b' = length (take ?t (buf st) @ map Some blk
                      @ replicate (capacity st * 2 - (?t + ?n)) None)"
            using l l1 fits inv by simp
        next
          fix p assume "p < length b'"
          then have p: "p < length ?b1" using l by simp
          show "b' ! p = (take ?t (buf st) @ map Some blk
                      @ replicate (capacity st * 2 - (?t + ?n)) None) ! p"
            using v p fits inv False by (auto simp: nth_append)
        qed
        then show ?thesis using False yes fits g c s1 by (simp add: append_block_def)
      next
        case over: False
        have "copy_block blk ?t [0..<?n] ?b1 = Inl OutOfBounds"
          using over inv cl l1 by (intro copy_block_past) simp_all
        then show ?thesis using False yes over g by (simp add: append_block_def)
      qed
    qed
  qed
qed

lemma read_all_snoc:
  "read_all ok st (xs @ [x]) =
     (case read_all ok st xs of Inl e \<Rightarrow> Inl e | Inr s \<Rightarrow> append_block ok s x)"
  by (induction xs arbitrary: st) (auto split: sum.splits)

text \<open>What one pass that ends without a fault leaves.\<close>

lemma append_block_Inr:
  assumes inv: "length (buf st) = capacity st" "total_samples st \<le> capacity st"
    and cap: "capacity st < 2 ^ 62" and len: "length blk < 2 ^ 62"
    and r: "append_block ok st blk = Inr st'"
  shows "total_samples st' = total_samples st + length blk"
    and "total_samples st' \<le> capacity st'"
    and "length (buf st') = capacity st'"
    and "capacity st' = (if total_samples st + length blk > capacity st
                         then capacity st * 2 else capacity st)"
    and "take (total_samples st) (buf st') = take (total_samples st) (buf st)"
    and "take (total_samples st') (buf st') = take (total_samples st) (buf st) @ map Some blk"
proof -
  note s = append_block_step [OF inv cap len, of ok]
  have st': "st' = (if total_samples st + length blk \<le> capacity st
      then \<lparr>buf = take (total_samples st) (buf st) @ map Some blk
                      @ drop (total_samples st + length blk) (buf st),
                capacity = capacity st,
                total_samples = total_samples st + length blk\<rparr>
      else \<lparr>buf = take (total_samples st) (buf st) @ map Some blk
                      @ replicate (capacity st * 2 - (total_samples st + length blk)) None,
                capacity = capacity st * 2,
                total_samples = total_samples st + length blk\<rparr>)"
    and fit: "total_samples st + length blk \<le> capacity st * 2"
    using r unfolding s by (auto split: if_splits)
  show "total_samples st' = total_samples st + length blk" unfolding st' by simp
  show "total_samples st' \<le> capacity st'" unfolding st' using fit by simp
  show "length (buf st') = capacity st'" unfolding st' using inv fit by auto
  show "capacity st' = (if total_samples st + length blk > capacity st
                         then capacity st * 2 else capacity st)"
    unfolding st' by simp
  show "take (total_samples st) (buf st') = take (total_samples st) (buf st)"
    unfolding st' using inv by simp
  show "take (total_samples st') (buf st') = take (total_samples st) (buf st) @ map Some blk"
    unfolding st' using inv by simp
qed

text \<open>
  The read loop from such a state, when it ends without a fault and the samples are
  fewer than \<open>B\<close>, a bound far from the end of the address space.
\<close>

lemma read_all_Inr:
  "length (buf st) = capacity st \<Longrightarrow> total_samples st \<le> capacity st \<Longrightarrow>
   total_samples st + length (concat blks) \<le> B \<Longrightarrow> capacity st \<le> 2 * B \<Longrightarrow> B \<le> 2 ^ 60 \<Longrightarrow>
   read_all ok st blks = Inr st' \<Longrightarrow>
     length (buf st') = capacity st'
   \<and> total_samples st' = total_samples st + length (concat blks)
   \<and> total_samples st' \<le> capacity st'
   \<and> capacity st \<le> capacity st' \<and> capacity st' \<le> 2 * B
   \<and> take (total_samples st) (buf st') = take (total_samples st) (buf st)
   \<and> take (total_samples st') (buf st')
       = take (total_samples st) (buf st) @ map Some (concat blks)"
proof (induction blks arbitrary: st)
  case Nil
  then show ?case by simp
next
  case (Cons blk blks)
  have p: "(2::nat) * 2 ^ 60 = 2 ^ 61" "(2::nat) ^ 61 < 2 ^ 62" "(2::nat) ^ 60 < 2 ^ 62" by simp_all
  have cap: "capacity st < 2 ^ 62" using Cons.prems(4,5) p by linarith
  have lb: "length blk \<le> B" using Cons.prems(3) by simp
  then have len: "length blk < 2 ^ 62" using Cons.prems(5) p by linarith
  from Cons.prems(6) obtain s1 where a: "append_block ok st blk = Inr s1"
    and r: "read_all ok s1 blks = Inr st'"
    by (auto split: sum.splits)
  note f = append_block_Inr [OF Cons.prems(1,2) cap len a]
  have t1: "total_samples s1 + length (concat blks) \<le> B"
    using f(1) Cons.prems(3) by simp
  have c1: "capacity s1 \<le> 2 * B"
  proof (cases "total_samples st + length blk > capacity st")
    case True
    then have "capacity st < B" using Cons.prems(3) by simp
    then show ?thesis using f(4) True by simp
  next
    case False
    then show ?thesis using f(4) Cons.prems(4) by simp
  qed
  have mono: "capacity st \<le> capacity s1" using f(4) by simp
  note ih = Cons.IH [OF f(3) f(2) t1 c1 Cons.prems(5) r]
  have i1: "take (total_samples s1) (buf st') = take (total_samples s1) (buf s1)"
    and i2: "take (total_samples st') (buf st')
       = take (total_samples s1) (buf s1) @ map Some (concat blks)"
    and i3: "total_samples st' = total_samples s1 + length (concat blks)"
    and i4: "length (buf st') = capacity st'" "total_samples st' \<le> capacity st'"
      "capacity s1 \<le> capacity st'" "capacity st' \<le> 2 * B"
    using ih by blast+
  have tl: "total_samples st \<le> total_samples s1" using f(1) by simp
  have old: "take (total_samples st) (buf st') = take (total_samples st) (buf st)"
  proof -
    have "take (total_samples st) (buf st')
        = take (total_samples st) (take (total_samples s1) (buf st'))"
      using tl by (simp add: min_def)
    also have "\<dots> = take (total_samples st) (take (total_samples s1) (buf s1))"
      by (simp only: i1)
    also have "\<dots> = take (total_samples st) (buf s1)" using tl by (simp add: min_def)
    also have "\<dots> = take (total_samples st) (buf st)" using f(5) .
    finally show ?thesis .
  qed
  have new: "take (total_samples st') (buf st')
       = take (total_samples st) (buf st) @ map Some (concat (blk # blks))"
  proof -
    show ?thesis unfolding i2 f(6) by simp
  qed
  have tot: "total_samples st' = total_samples st + length (concat (blk # blks))"
    using i3 f(1) by simp
  have cm: "capacity st \<le> capacity st'" using i4 mono by linarith
  show ?case using i4 tot cm old new by (intro conjI)
qed

text \<open>
  The read loop ends without a fault when every reallocation succeeds and no block is
  longer than the capacity.
\<close>

lemma read_all_total:
  "length (buf st) = capacity st \<Longrightarrow> total_samples st \<le> capacity st \<Longrightarrow>
   total_samples st + length (concat blks) \<le> B \<Longrightarrow> capacity st \<le> 2 * B \<Longrightarrow> B \<le> 2 ^ 60 \<Longrightarrow>
   \<forall>c. ok c \<Longrightarrow> \<forall>blk\<in>set blks. length blk \<le> capacity st \<Longrightarrow>
   \<exists>st'. read_all ok st blks = Inr st'"
proof (induction blks arbitrary: st)
  case Nil
  then show ?case by simp
next
  case (Cons blk blks)
  have p: "(2::nat) * 2 ^ 60 = 2 ^ 61" "(2::nat) ^ 61 < 2 ^ 62" "(2::nat) ^ 60 < 2 ^ 62" by simp_all
  have cap: "capacity st < 2 ^ 62" using Cons.prems(4,5) p by linarith
  have lb: "length blk \<le> B" using Cons.prems(3) by simp
  then have len: "length blk < 2 ^ 62" using Cons.prems(5) p by linarith
  have small: "length blk \<le> capacity st" using Cons.prems(7) by simp
  then have fit: "total_samples st + length blk \<le> capacity st * 2"
    using Cons.prems(2) by linarith
  have "\<exists>s1. append_block ok st blk = Inr s1"
    unfolding append_block_step [OF Cons.prems(1,2) cap len, of ok]
    using fit Cons.prems(6) by simp
  then obtain s1 where a: "append_block ok st blk = Inr s1" ..
  note f = append_block_Inr [OF Cons.prems(1,2) cap len a]
  have t1: "total_samples s1 + length (concat blks) \<le> B"
    using f(1) Cons.prems(3) by simp
  have c1: "capacity s1 \<le> 2 * B"
  proof (cases "total_samples st + length blk > capacity st")
    case True
    then have "capacity st < B" using Cons.prems(3) by simp
    then show ?thesis using f(4) True by simp
  next
    case False
    then show ?thesis using f(4) Cons.prems(4) by simp
  qed
  have mono: "capacity st \<le> capacity s1" using f(4) by simp
  have rest: "\<forall>b\<in>set blks. length b \<le> capacity s1"
    using Cons.prems(7) mono by auto
  from Cons.IH [OF f(3) f(2) t1 c1 Cons.prems(5,6) rest] obtain st' where
    "read_all ok s1 blks = Inr st'" ..
  then show ?case using a by simp
qed

lemma concat_take_length: "length (concat (take n xs)) \<le> length (concat xs)"
proof -
  have "concat xs = concat (take n xs) @ concat (drop n xs)"
    by (simp flip: concat_append)
  then have "length (concat xs) = length (concat (take n xs)) + length (concat (drop n xs))"
    by (simp only: length_append)
  then show ?thesis by simp
qed

lemma pcm_init_small:
  assumes "0 \<le> r * c * 2" and "r * c * 2 < 2 ^ 63"
  shows "pcm_init r c = \<lparr>buf = replicate (nat (r * c * 2)) None,
                          capacity = nat (r * c * 2), total_samples = 0\<rparr>"
proof -
  define v where "v = r * c * 2"
  have v: "0 \<le> v" "v < 2 ^ 63" using assms by (simp_all add: v_def)
  have "v mod 2 ^ 64 = v" using v by (intro mod_pos_pos_trivial) simp_all
  then have s: "size_t v = nat v" by (simp add: size_t_def)
  have "int (nat v) * 2 mod 2 ^ 64 = int (nat v) * 2"
    using v by (intro mod_pos_pos_trivial) simp_all
  then have "size_t (int (nat v) * 2) = nat v * 2"
    using v by (simp add: size_t_def nat_mult_distrib)
  then show ?thesis by (simp add: pcm_init_def s flip: v_def)
qed

lemma pcm_init_1_2:
  "pcm_init 1 2 = \<lparr>buf = [None, None, None, None], capacity = 4, total_samples = 0\<rparr>"
  by (subst pcm_init_small) (simp_all add: eval_nat_numeral)

lemma replicate_2: "replicate 2 x = [x, x]"
  by (simp add: numeral_2_eq_2)

lemma replicate_4: "replicate 4 x = [x, x, x, x]"
  by (simp add: eval_nat_numeral)

lemma pcm_step_1:
  "append_block (\<lambda>c. True) \<lparr>buf = [None, None, None, None], capacity = 4, total_samples = 0\<rparr>
      [1, 2, 3]
    = Inr \<lparr>buf = [Some 1, Some 2, Some 3, None], capacity = 4, total_samples = 3\<rparr>"
  by (subst append_block_step) simp_all

lemma pcm_step_2:
  "append_block (\<lambda>c. True)
      \<lparr>buf = [Some 1, Some 2, Some 3, None], capacity = 4, total_samples = 3\<rparr> [4, 5, 6]
    = Inr \<lparr>buf = [Some 1, Some 2, Some 3, Some 4, Some 5, Some 6, None, None],
           capacity = 8, total_samples = 6\<rparr>"
  by (subst append_block_step) (simp_all add: replicate_2)

lemma pcm_step_3:
  "append_block (\<lambda>c. True)
      \<lparr>buf = [Some 1, Some 2, Some 3, Some 4, Some 5, Some 6, None, None],
       capacity = 8, total_samples = 6\<rparr> [7, 8, 9, 10, 11, 12]
    = Inr \<lparr>buf = [Some 1, Some 2, Some 3, Some 4, Some 5, Some 6, Some 7, Some 8, Some 9,
                  Some 10, Some 11, Some 12, None, None, None, None],
           capacity = 16, total_samples = 12\<rparr>"
  by (subst append_block_step) (simp_all add: replicate_4)

lemma pcm_run_2:
  "read_all (\<lambda>c. True) (pcm_init 1 2) [[1, 2, 3], [4, 5, 6]]
    = Inr \<lparr>buf = [Some 1, Some 2, Some 3, Some 4, Some 5, Some 6, None, None],
           capacity = 8, total_samples = 6\<rparr>"
  by (simp add: pcm_init_1_2 pcm_step_1 pcm_step_2)

lemma pcm_run_3:
  "read_all (\<lambda>c. True) (pcm_init 1 2) [[1, 2, 3], [4, 5, 6], [7, 8, 9, 10, 11, 12]]
    = Inr \<lparr>buf = [Some 1, Some 2, Some 3, Some 4, Some 5, Some 6, Some 7, Some 8, Some 9,
                  Some 10, Some 11, Some 12, None, None, None, None],
           capacity = 16, total_samples = 12\<rparr>"
  by (simp add: pcm_init_1_2 pcm_step_1 pcm_step_2 pcm_step_3)

text \<open>
  C3.  The read loop from a state in which the block has \<open>capacity\<close> cells and the
  count fits, on any sequence of blocks (far from the end of the address space).  Every
  append that the loop completes ends with the count at most the capacity, the capacity
  doubled exactly when the count after the append would exceed it, the samples stored
  before at their places and the new block behind them.  An append completes unless the
  reallocation fails or the block is longer than one doubling makes room for, and the
  loop completes every append when every reallocation succeeds and no block is longer
  than the capacity the loop starts with.
\<close>

theorem pcm_append_invariant:
  "length (buf st) = capacity st \<Longrightarrow> total_samples st \<le> capacity st \<Longrightarrow>
   capacity st + length (concat blks) \<le> 2 ^ 60 \<Longrightarrow> n < length blks \<Longrightarrow>
     (\<forall>s'. read_all ok st (take (Suc n) blks) = Inr s' \<longrightarrow>
        (\<exists>s. read_all ok st (take n blks) = Inr s
           \<and> append_block ok s (blks ! n) = Inr s'
           \<and> total_samples s \<le> capacity s
           \<and> total_samples s' = total_samples s + length (blks ! n)
           \<and> total_samples s' \<le> capacity s'
           \<and> length (buf s') = capacity s'
           \<and> capacity s' = (if total_samples s + length (blks ! n) > capacity s
                             then capacity s * 2 else capacity s)
           \<and> take (total_samples s) (buf s') = take (total_samples s) (buf s)
           \<and> take (total_samples s') (buf s')
               = take (total_samples st) (buf st) @ map Some (concat (take (Suc n) blks))))
   \<and> (\<forall>s. read_all ok st (take n blks) = Inr s \<longrightarrow>
        append_block ok s (blks ! n) =
          (if total_samples s + length (blks ! n) \<le> capacity s
           then Inr \<lparr>buf = take (total_samples s) (buf s) @ map Some (blks ! n)
                           @ drop (total_samples s + length (blks ! n)) (buf s),
                     capacity = capacity s,
                     total_samples = total_samples s + length (blks ! n)\<rparr>
           else if \<not> ok (capacity s * 2 * 2) then Inl OutOfMemory
           else if total_samples s + length (blks ! n) \<le> capacity s * 2
           then Inr \<lparr>buf = take (total_samples s) (buf s) @ map Some (blks ! n)
                           @ replicate (capacity s * 2 - (total_samples s + length (blks ! n))) None,
                     capacity = capacity s * 2,
                     total_samples = total_samples s + length (blks ! n)\<rparr>
           else Inl OutOfBounds))
   \<and> ((\<forall>c. ok c) \<and> (\<forall>blk\<in>set blks. length blk \<le> capacity st) \<longrightarrow>
        (\<exists>s'. read_all ok st (take (Suc n) blks) = Inr s'))"
proof -
  assume inv: "length (buf st) = capacity st" "total_samples st \<le> capacity st"
    and bound: "capacity st + length (concat blks) \<le> 2 ^ 60" and n: "n < length blks"
  define B :: nat where "B = 2 ^ 60"
  have B: "B \<le> 2 ^ 60" by (simp add: B_def)
  have cB: "capacity st \<le> 2 * B" using bound by (simp add: B_def)
  have tk: "total_samples st + length (concat (take k blks)) \<le> B" for k
    using concat_take_length [of k blks] inv(2) bound unfolding B_def by linarith
  have p: "(2::nat) * 2 ^ 60 = 2 ^ 61" "(2::nat) ^ 61 < 2 ^ 62" "(2::nat) ^ 60 < 2 ^ 62"
    by simp_all
  have split: "read_all ok st (take (Suc n) blks) =
      (case read_all ok st (take n blks) of Inl e \<Rightarrow> Inl e
       | Inr s \<Rightarrow> append_block ok s (blks ! n))"
    using n by (simp add: take_Suc_conv_app_nth read_all_snoc)
  have "length (blks ! n) \<le> length (concat blks)"
  proof -
    have "blks = take n blks @ blks ! n # drop (Suc n) blks"
      using n by (simp add: id_take_nth_drop)
    then have "concat blks = concat (take n blks) @ blks ! n @ concat (drop (Suc n) blks)"
      by (metis concat.simps(2) concat_append)
    then have "length (concat blks) = length (concat (take n blks)) + length (blks ! n)
        + length (concat (drop (Suc n) blks))"
      by (simp only: length_append add.assoc)
    then show ?thesis by linarith
  qed
  then have len: "length (blks ! n) < 2 ^ 62" using bound p by linarith
  have before: "length (buf s) = capacity s \<and> total_samples s \<le> capacity s
      \<and> capacity s < 2 ^ 62"
    if r: "read_all ok st (take n blks) = Inr s" for s
  proof -
    note f = read_all_Inr [OF inv tk cB B r]
    have "capacity s \<le> 2 * B" using f by blast
    then have "capacity s < 2 ^ 62" using p unfolding B_def by linarith
    then show ?thesis using f by blast
  qed
  have A: "\<exists>s. read_all ok st (take n blks) = Inr s
           \<and> append_block ok s (blks ! n) = Inr s'
           \<and> total_samples s \<le> capacity s
           \<and> total_samples s' = total_samples s + length (blks ! n)
           \<and> total_samples s' \<le> capacity s'
           \<and> length (buf s') = capacity s'
           \<and> capacity s' = (if total_samples s + length (blks ! n) > capacity s
                             then capacity s * 2 else capacity s)
           \<and> take (total_samples s) (buf s') = take (total_samples s) (buf s)
           \<and> take (total_samples s') (buf s')
               = take (total_samples st) (buf st) @ map Some (concat (take (Suc n) blks))"
    if r': "read_all ok st (take (Suc n) blks) = Inr s'" for s'
  proof -
    from r' split obtain s where r: "read_all ok st (take n blks) = Inr s"
      and a: "append_block ok s (blks ! n) = Inr s'"
      by (auto split: sum.splits)
    from before [OF r] have b: "length (buf s) = capacity s" "total_samples s \<le> capacity s"
      "capacity s < 2 ^ 62" by blast+
    note f = append_block_Inr [OF b len a]
    have g: "take (total_samples s') (buf s')
               = take (total_samples st) (buf st) @ map Some (concat (take (Suc n) blks))"
      using read_all_Inr [OF inv tk cB B r'] by blast
    show ?thesis using r a b(2) f(1,2,3,4,5) g by blast
  qed
  have S: "append_block ok s (blks ! n) =
          (if total_samples s + length (blks ! n) \<le> capacity s
           then Inr \<lparr>buf = take (total_samples s) (buf s) @ map Some (blks ! n)
                           @ drop (total_samples s + length (blks ! n)) (buf s),
                     capacity = capacity s,
                     total_samples = total_samples s + length (blks ! n)\<rparr>
           else if \<not> ok (capacity s * 2 * 2) then Inl OutOfMemory
           else if total_samples s + length (blks ! n) \<le> capacity s * 2
           then Inr \<lparr>buf = take (total_samples s) (buf s) @ map Some (blks ! n)
                           @ replicate (capacity s * 2 - (total_samples s + length (blks ! n))) None,
                     capacity = capacity s * 2,
                     total_samples = total_samples s + length (blks ! n)\<rparr>
           else Inl OutOfBounds)"
    if r: "read_all ok st (take n blks) = Inr s" for s
  proof -
    from before [OF r] have b: "length (buf s) = capacity s" "total_samples s \<le> capacity s"
      "capacity s < 2 ^ 62" by blast+
    show ?thesis by (rule append_block_step [OF b len])
  qed
  have T: "\<exists>s'. read_all ok st (take (Suc n) blks) = Inr s'"
    if "(\<forall>c. ok c) \<and> (\<forall>blk\<in>set blks. length blk \<le> capacity st)"
  proof -
    have "\<forall>blk\<in>set (take (Suc n) blks). length blk \<le> capacity st"
      using that by (meson in_set_takeD)
    then show ?thesis using read_all_total [OF inv tk cB B] that by blast
  qed
  show ?thesis using A S T by blast
qed

theorem pcm_append_invariant_witness:
  "read_all (\<lambda>c. True) (pcm_init 1 2) (take 2 [[1, 2, 3], [4, 5, 6], [7, 8, 9, 10, 11, 12]])
     = Inr \<lparr>buf = [Some 1, Some 2, Some 3, Some 4, Some 5, Some 6, None, None],
            capacity = 8, total_samples = 6\<rparr>
   \<and> append_block (\<lambda>c. True)
        \<lparr>buf = [Some 1, Some 2, Some 3, Some 4, Some 5, Some 6, None, None],
         capacity = 8, total_samples = 6\<rparr>
        ([[1, 2, 3], [4, 5, 6], [7, 8, 9, 10, 11, 12]] ! 2)
     = Inr \<lparr>buf = [Some 1, Some 2, Some 3, Some 4, Some 5, Some 6, Some 7, Some 8, Some 9,
                   Some 10, Some 11, Some 12, None, None, None, None],
            capacity = 16, total_samples = 12\<rparr>
   \<and> read_all (\<lambda>c. True) (pcm_init 1 2)
        (take (Suc 2) [[1, 2, 3], [4, 5, 6], [7, 8, 9, 10, 11, 12]])
     = Inr \<lparr>buf = [Some 1, Some 2, Some 3, Some 4, Some 5, Some 6, Some 7, Some 8, Some 9,
                   Some 10, Some 11, Some 12, None, None, None, None],
            capacity = 16, total_samples = 12\<rparr>
   \<and> (6::nat) + length ([[1, 2, 3], [4, 5, 6], [7, 8, 9, 10, 11, 12 :: 16 word]] ! 2) > 8
   \<and> (12::nat) \<le> 16 \<and> (16::nat) = 8 * 2
   \<and> length ([[1, 2, 3], [4, 5, 6], [7, 8, 9, 10, 11, 12 :: 16 word]] ! 2)
        > capacity (pcm_init 1 2)"
proof -
  let ?blks = "[[1, 2, 3], [4, 5, 6], [7, 8, 9, 10, 11, 12 :: 16 word]]"
  let ?mid = "\<lparr>buf = [Some 1, Some 2, Some 3, Some 4, Some 5, Some 6, None, None],
         capacity = 8, total_samples = 6\<rparr> :: pcm_state"
  let ?fin = "\<lparr>buf = [Some 1, Some 2, Some 3, Some 4, Some 5, Some 6, Some 7, Some 8, Some 9,
                   Some 10, Some 11, Some 12, None, None, None, None],
            capacity = 16, total_samples = 12\<rparr> :: pcm_state"
  have i1: "length (buf (pcm_init 1 2)) = capacity (pcm_init 1 2)"
    by (simp add: pcm_init_1_2)
  have i2: "total_samples (pcm_init 1 2) \<le> capacity (pcm_init 1 2)"
    by (simp add: pcm_init_1_2)
  have i3: "capacity (pcm_init 1 2) + length (concat ?blks) \<le> 2 ^ 60"
    by (simp add: pcm_init_1_2)
  have i4: "2 < length ?blks" by simp
  have t3: "take (Suc 2) ?blks = ?blks" by simp
  have t2: "take 2 ?blks = [[1, 2, 3], [4, 5, 6]]" by simp
  have r3: "read_all (\<lambda>c. True) (pcm_init 1 2) (take (Suc 2) ?blks) = Inr ?fin"
    unfolding t3 by (rule pcm_run_3)
  have r2: "read_all (\<lambda>c. True) (pcm_init 1 2) (take 2 ?blks) = Inr ?mid"
    unfolding t2 by (rule pcm_run_2)
  from pcm_append_invariant [OF i1 i2 i3 i4, of "\<lambda>c. True"] r3 obtain s where
    r: "read_all (\<lambda>c. True) (pcm_init 1 2) (take 2 ?blks) = Inr s"
    and a: "append_block (\<lambda>c. True) s (?blks ! 2) = Inr ?fin"
    and c: "capacity ?fin = (if total_samples s + length (?blks ! 2) > capacity s
                             then capacity s * 2 else capacity s)"
    and f: "total_samples ?fin \<le> capacity ?fin"
    by blast
  have "Inr s = (Inr ?mid :: fault + pcm_state)"
    by (rule trans [OF r [symmetric] r2])
  then have s: "s = ?mid" by (simp only: sum.inject)
  have a': "append_block (\<lambda>c. True) ?mid (?blks ! 2) = Inr ?fin" using a unfolding s .
  have g: "(6::nat) + length (?blks ! 2) > 8" by simp
  have d: "(16::nat) = 8 * 2" by simp
  have e: "(12::nat) \<le> 16" by simp
  have b: "length (?blks ! 2) > capacity (pcm_init 1 2)" by (simp add: pcm_init_1_2)
  show ?thesis using r2 a' r3 g e d b by (intro conjI)
qed

section \<open>Evaluating a rounding\<close>

lemma round_ties_even_unique:
  assumes "of_int z - 1 / 2 < q" and "q < of_int z + 1 / 2"
  shows "round_ties_even q = z"
proof (cases "of_int z \<le> q")
  case True
  then have f: "\<lfloor>q\<rfloor> = z" using assms(2) by (intro floor_unique) linarith+
  show ?thesis using assms(2) by (simp add: round_ties_even_def Let_def f)
next
  case False
  then have f: "\<lfloor>q\<rfloor> = z - 1" using assms(1) by (intro floor_unique) (simp, linarith)+
  have "1 / 2 < q - of_int (z - 1)" using assms(1) by simp
  then show ?thesis by (simp add: round_ties_even_def Let_def f)
qed

lemma round_ties_even_tie:
  assumes "\<bar>q - of_int z\<bar> = 1 / 2" and "even z"
  shows "round_ties_even q = z"
proof (cases "of_int z \<le> q")
  case True
  then have q: "q = of_int z + 1 / 2" using assms(1) by linarith
  have f: "\<lfloor>real_of_int z + 1 / 2\<rfloor> = z" by (intro floor_unique) simp_all
  show ?thesis unfolding q round_ties_even_def Let_def f using assms(2) by simp
next
  case False
  then have q: "q = of_int z - 1 / 2" using assms(1) by linarith
  have f: "\<lfloor>real_of_int z - 1 / 2\<rfloor> = z - 1" by (intro floor_unique) simp_all
  have o: "odd (z - 1)" using assms(2) by simp
  show ?thesis unfolding q round_ties_even_def Let_def f using o by simp
qed

text \<open>
  The rounding of \<open>x\<close>, which lies in the binade of \<open>2 ^ l\<close>, is the multiple
  \<open>z * u\<close> of the unit \<open>u\<close> in the last place that is nearer than half a unit, or
  the even one of two that are half a unit away.
\<close>

lemma round_to_near:
  assumes "2 powr of_int l \<le> \<bar>x\<bar>" and "\<bar>x\<bar> < 2 powr (of_int l + 1)" and "emin \<le> l"
    and u: "u = 2 powr of_int (l - (int p - 1))"
    and "\<bar>x - of_int z * u\<bar> < u / 2"
  shows "round_to p emin x = of_int z * u"
proof -
  have pos: "0 < u" unfolding u by simp
  have "\<bar>x / u - of_int z\<bar> = \<bar>x - of_int z * u\<bar> / u"
    using pos by (simp add: field_simps abs_divide)
  also have "\<dots> < 1 / 2" using assms(5) pos by (simp add: field_simps)
  finally have "round_ties_even (x / u) = z"
    by (intro round_ties_even_unique) linarith+
  then show ?thesis using round_to_eval [OF assms(1,2,3), of p] unfolding u by simp
qed

lemma round_to_tie:
  assumes "2 powr of_int l \<le> \<bar>x\<bar>" and "\<bar>x\<bar> < 2 powr (of_int l + 1)" and "emin \<le> l"
    and u: "u = 2 powr of_int (l - (int p - 1))"
    and "\<bar>x - of_int z * u\<bar> = u / 2" and "even z"
  shows "round_to p emin x = of_int z * u"
proof -
  have pos: "0 < u" unfolding u by simp
  have "\<bar>x / u - of_int z\<bar> = \<bar>x - of_int z * u\<bar> / u"
    using pos by (simp add: field_simps abs_divide)
  also have "\<dots> = 1 / 2" using assms(5) pos by (simp add: field_simps)
  finally have "round_ties_even (x / u) = z"
    using assms(6) by (intro round_ties_even_tie)
  then show ?thesis using round_to_eval [OF assms(1,2,3), of p] unfolding u by simp
qed

text \<open>The constant: the double nearest to 3.1415926535.\<close>

lemma PI_value: "PI = 1768559437956561 / 562949953421312"
proof -
  have "round_to 53 (- 1022) (31415926535 / 10000000000)
      = of_int 7074237751826244 * (1 / 2251799813685248)"
    by (rule round_to_near [where l = 1]) (simp_all add: powr_minus_divide)
  then show ?thesis by (simp add: PI_def to_double_def)
qed

section \<open>The phase of one chirp entry\<close>

lemma dbl_value: "to_double x = v \<Longrightarrow> \<bar>v\<bar> \<le> 2 ^ 1022 \<Longrightarrow> dbl x = Finite v"
proof -
  assume v: "to_double x = v" and b: "\<bar>v\<bar> \<le> 2 ^ 1022"
  have "(2::real) ^ 1022 \<le> 2 ^ 1023" by (rule power_increasing) simp_all
  then have "\<bar>v\<bar> \<le> DBL_MAX" using b DBL_MAX_ge by linarith
  then show ?thesis using v by (simp add: dbl_def)
qed

lemma flt_value: "to_float x = v \<Longrightarrow> \<bar>v\<bar> \<le> 2 ^ 127 \<Longrightarrow> flt x = Finite v"
proof -
  assume v: "to_float x = v" and b: "\<bar>v\<bar> \<le> 2 ^ 127"
  have "(2::real) ^ 127 = 2 ^ 23 * 2 ^ 104" by (simp only: flip: power_add) simp
  also have "\<dots> \<le> (2 ^ 24 - 1) * 2 ^ 104" by (rule mult_right_mono) simp_all
  finally have "\<bar>v\<bar> \<le> FLT_MAX" using b unfolding FLT_MAX_def by linarith
  then show ?thesis using v by (simp add: flt_def)
qed

lemma small_1022: "\<bar>v\<bar> \<le> 2 ^ 60 \<Longrightarrow> \<bar>v :: real\<bar> \<le> 2 ^ 1022"
proof -
  assume "\<bar>v\<bar> \<le> 2 ^ 60"
  moreover have "(2::real) ^ 60 \<le> 2 ^ 1022" by (rule power_increasing) simp_all
  ultimately show ?thesis by linarith
qed

lemma small_127: "\<bar>v\<bar> \<le> 2 ^ 60 \<Longrightarrow> \<bar>v :: real\<bar> \<le> 2 ^ 127"
proof -
  assume "\<bar>v\<bar> \<le> 2 ^ 60"
  moreover have "(2::real) ^ 60 \<le> 2 ^ 127" by (rule power_increasing) simp_all
  ultimately show ?thesis by linarith
qed

text \<open>\<open>k = 58703\<close>, \<open>bufflen = 89006\<close>: the three double operations and the narrowing.\<close>

lemma phase_step_1:
  "to_double (1768559437956561 / 562949953421312 * 58703) = 3168327169383667 / 17179869184"
proof -
  have "round_to 53 (- 1022) (1768559437956561 / 562949953421312 * 58703)
      = of_int 6336654338767334 * (1 / 34359738368)"
    by (rule round_to_near [where l = 17]) (simp_all add: powr_minus_divide)
  then show ?thesis by (simp add: to_double_def)
qed

lemma phase_step_2:
  "to_double (3168327169383667 / 17179869184 * 58703) = 1385735793593 / 128"
proof -
  have "round_to 53 (- 1022) (3168327169383667 / 17179869184 * 58703)
      = of_int 5675973810556928 * (1 / 524288)"
    by (rule round_to_near [where l = 33]) (simp_all add: powr_minus_divide)
  then show ?thesis by (simp add: to_double_def)
qed

lemma phase_step_3:
  "to_double (1385735793593 / 128 / 89006) = 31138031 / 256"
proof -
  have "round_to 53 (- 1022) (1385735793593 / 128 / 89006)
      = of_int 8358551550427136 * (1 / 68719476736)"
    by (rule round_to_near [where l = 16]) (simp_all add: powr_minus_divide)
  then show ?thesis by (simp add: to_double_def)
qed

lemma phase_step_4: "to_float (31138031 / 256) = 1946127 / 16"
proof -
  have "round_to 24 (- 126) (31138031 / 256) = of_int 15569016 * (1 / 128)"
    by (rule round_to_tie [where l = 16]) (simp_all add: powr_minus_divide)
  then show ?thesis by (simp add: to_float_def)
qed

lemma phase_pos_58703: "phase_pos 58703 89006 = Finite (31138031 / 256)"
proof -
  have k: "dbl (real 58703) = Finite 58703"
    using dbl_of_int [of 58703] by simp
  have n: "to_double (real 89006) = 89006"
    using to_double_of_nat [of 89006] by simp
  have a: "dbl (1768559437956561 / 562949953421312 * 58703)
      = Finite (3168327169383667 / 17179869184)"
    by (rule dbl_value [OF phase_step_1]) (rule small_1022, simp)
  have b: "dbl (3168327169383667 / 17179869184 * 58703) = Finite (1385735793593 / 128)"
    by (rule dbl_value [OF phase_step_2]) (rule small_1022, simp)
  have c: "dbl (1385735793593 / 128 / 89006) = Finite (31138031 / 256)"
    by (rule dbl_value [OF phase_step_3]) (rule small_1022, simp)
  show ?thesis
    by (simp only: phase_pos_def k n PI_value dmul.simps a b ddiv.simps c) simp
qed

lemma phase_neg_pos: "phase_neg k n = dneg (phase_pos k n)"
  by (simp only: phase_neg_def phase_pos_def dmul_dneg ddiv_dneg)

lemma chirp_B_phase: "chirp_phase k n = dneg (B_phase k n)"
  by (simp only: chirp_phase_def B_phase_def phase_neg_pos narrow_dneg)

lemma B_phase_58703: "B_phase 58703 89006 = Finite (1946127 / 16)"
proof -
  have "flt (31138031 / 256) = Finite (1946127 / 16)"
    by (rule flt_value [OF phase_step_4]) (rule small_127, simp)
  then show ?thesis by (simp only: B_phase_def phase_pos_58703 narrow.simps)
qed

text \<open>\<open>k = 1\<close>, \<open>bufflen = 2\<close>.\<close>

lemma phase_pos_1_2: "phase_pos 1 2 = Finite (1768559437956561 / 1125899906842624)"
proof -
  have k: "dbl (real 1) = Finite 1" using dbl_of_int [of 1] by simp
  have n: "to_double (real 2) = 2" using to_double_of_nat [of 2] by simp
  have e: "to_double (1768559437956561 / 562949953421312) = 1768559437956561 / 562949953421312"
    by (rule to_double_exact [where s = 7074237751826244 and e = "- 51"])
       (simp_all add: powr_minus_divide)
  have h: "to_double (1768559437956561 / 1125899906842624) = 1768559437956561 / 1125899906842624"
    by (rule to_double_exact [where s = 7074237751826244 and e = "- 52"])
       (simp_all add: powr_minus_divide)
  have a: "dbl (1768559437956561 / 562949953421312) = Finite (1768559437956561 / 562949953421312)"
    by (rule dbl_value [OF e]) (rule small_1022, simp)
  have c: "dbl (1768559437956561 / 1125899906842624) = Finite (1768559437956561 / 1125899906842624)"
    by (rule dbl_value [OF h]) (rule small_1022, simp)
  have d: "1768559437956561 / 562949953421312 / (2::real) = 1768559437956561 / 1125899906842624"
    by simp
  show ?thesis
    by (simp only: phase_pos_def k n PI_value dmul.simps mult_1_right a ddiv.simps d c) simp
qed

lemma B_phase_1_2: "B_phase 1 2 = Finite (13176795 / 8388608)"
proof -
  have "round_to 24 (- 126) (1768559437956561 / 1125899906842624)
      = of_int 13176795 * (1 / 8388608)"
    by (rule round_to_near [where l = 0]) (simp_all add: powr_minus_divide)
  then have "to_float (1768559437956561 / 1125899906842624) = 13176795 / 8388608"
    by (simp add: to_float_def)
  then have "flt (1768559437956561 / 1125899906842624) = Finite (13176795 / 8388608)"
    by (rule flt_value) (rule small_127, simp)
  then show ?thesis by (simp only: B_phase_def phase_pos_1_2 narrow.simps)
qed

text \<open>
  C8 at \<open>bufflen = 89006\<close>, \<open>k = 58703\<close>, and at \<open>bufflen = 2\<close>, \<open>k = 1\<close>.  The
  expression \<open>(-PI * k * k) / bufflen\<close> has the double value \<open>- 31138031 / 256\<close>; the
  variable \<^verbatim>\<open>float phase\<close> holds \<open>- 1946127 / 16\<close>, which is \<open>1 / 256\<close> away, and
  this is the angle \<^verbatim>\<open>cos\<close> and \<^verbatim>\<open>sin\<close> are called with.  The second phase, passed
  to the \<^verbatim>\<open>float\<close> parameter of \<^verbatim>\<open>fromAngle\<close>, is narrowed the same way.
\<close>

theorem phase_stored_in_float:
  "phase_neg 58703 89006 = Finite (- (31138031 / 256))
   \<and> chirp_phase 58703 89006 = Finite (- (1946127 / 16))
   \<and> phase_pos 58703 89006 = Finite (31138031 / 256)
   \<and> B_phase 58703 89006 = Finite (1946127 / 16)
   \<and> chirp_seq lm 89006 ! 58703
       = \<lparr>re = dmul (Finite 1) (dbl (cos_d lm (- (1946127 / 16)))),
          im = dmul (Finite 1) (dbl (sin_d lm (- (1946127 / 16))))\<rparr>
   \<and> \<bar>- (1946127 / 16) - (- (31138031 / 256))\<bar> = (1 / 256 :: real)
   \<and> phase_neg 1 2 = Finite (- (1768559437956561 / 1125899906842624))
   \<and> chirp_phase 1 2 = Finite (- (13176795 / 8388608))
   \<and> chirp_phase 1 2 \<noteq> phase_neg 1 2"
proof -
  have a: "phase_neg 58703 89006 = Finite (- (31138031 / 256))"
    by (simp only: phase_neg_pos phase_pos_58703 dneg.simps)
  have b: "chirp_phase 58703 89006 = Finite (- (1946127 / 16))"
    by (simp only: chirp_B_phase B_phase_58703 dneg.simps)
  have c: "chirp_seq lm 89006 ! 58703
       = \<lparr>re = dmul (Finite 1) (dbl (cos_d lm (- (1946127 / 16)))),
          im = dmul (Finite 1) (dbl (sin_d lm (- (1946127 / 16))))\<rparr>"
    by (simp add: chirp_seq_def fromAngle_def b)
  have d: "\<bar>- (1946127 / 16) - (- (31138031 / 256))\<bar> = (1 / 256 :: real)" by simp
  have e: "phase_neg 1 2 = Finite (- (1768559437956561 / 1125899906842624))"
    by (simp only: phase_neg_pos phase_pos_1_2 dneg.simps)
  have f: "chirp_phase 1 2 = Finite (- (13176795 / 8388608))"
    by (simp only: chirp_B_phase B_phase_1_2 dneg.simps)
  have g: "chirp_phase 1 2 \<noteq> phase_neg 1 2" unfolding e f by simp
  show ?thesis using a b phase_pos_58703 B_phase_58703 c d e f g by (intro conjI)
qed

section \<open>The size of the convolution\<close>






section \<open>The Bluestein setup\<close>





lemma dneg_dneg [simp]: "dneg (dneg d) = d"
  by (cases d) simp_all







lemma dbl_1 [simp]: "dbl 1 = Finite 1"
  using dbl_of_int [of 1] by simp

lemma to_float_0 [simp]: "to_float 0 = 0"
  by (simp add: to_float_def round_to_def)





section \<open>Channel extraction and the run on a short input\<close>

text \<open>
  What the extraction loop returns on well-formed data: half as many values as there are
  samples, the \<open>i\<close>-th of them the sample at position \<open>2 * i\<close>, whatever the
  channel count says.
\<close>

lemma leftChanelSamples_stride_two:
  "num_samples a \<le> length (samples a) \<Longrightarrow>
   leftChanelSamples a =
     Inr (map (\<lambda>i. real_of_int (sint (samples a ! (2 * i)))) [0..<num_samples a div 2])"
  by (auto simp: leftChanelSamples_def list_all_iff mult.commute)

text \<open>
  C4 at a mono input.  One channel, four samples: the claim asks for all four (length
  \<open>4 div 1\<close>, element \<open>i\<close> from position \<open>i\<close>); the loop returns two, taken from the
  positions 0 and 2.
\<close>

theorem extraction_mono_input:
  "leftChanelSamples \<lparr>samples = [10, 20, 30, 40], num_samples = 4,
       sample_rate = 44100, channels = 1\<rparr> = Inr [10, 30]
   \<and> length [10, 30 :: real] \<noteq> 4 div 1"
  by (simp add: leftChanelSamples_def upt_conv_Cons)

lemma map_filter_Some: "List.map_filter (\<lambda>c. c) (map Some xs) = xs"
  by (induction xs) (simp_all add: List.map_filter_simps)

text \<open>The samples a decoding without a fault hands to main.\<close>

lemma decoded_run:
  assumes "0 \<le> rate * ch" and "rate * ch \<le> 2 ^ 59"
    and "length (concat blks) \<le> 2 ^ 60"
    and "read_all ok (pcm_init rate ch) blks = Inr st"
  shows "decoded st = concat blks" and "total_samples st = length (concat blks)"
proof -
  define q where "q = rate * ch"
  have q: "0 \<le> q" "q \<le> 2 ^ 59" using assms(1,2) by (simp_all only: q_def)
  have "0 \<le> q * 2" "q * 2 < 2 ^ 63" "q * 2 \<le> 2 ^ 60" using q by simp_all
  then have v: "0 \<le> rate * ch * 2" "rate * ch * 2 < 2 ^ 63" "rate * ch * 2 \<le> 2 ^ 60"
    by (simp_all only: q_def)
  note i = pcm_init_small [OF v(1,2)]
  have "nat (rate * ch * 2) \<le> nat (2 ^ 60)" using v(3) by (rule nat_mono)
  then have c: "capacity (pcm_init rate ch) \<le> 2 * 2 ^ 60" by (simp add: i)
  have l: "length (buf (pcm_init rate ch)) = capacity (pcm_init rate ch)" by (simp add: i)
  have t: "total_samples (pcm_init rate ch) \<le> capacity (pcm_init rate ch)" by (simp add: i)
  have s: "total_samples (pcm_init rate ch) + length (concat blks) \<le> 2 ^ 60"
    using assms(3) by (simp add: i)
  note f = read_all_Inr [OF l t s c order_refl assms(4)]
  have tot: "total_samples st = total_samples (pcm_init rate ch) + length (concat blks)"
    and tk: "take (total_samples st) (buf st)
       = take (total_samples (pcm_init rate ch)) (buf (pcm_init rate ch)) @ map Some (concat blks)"
    using f by blast+
  show "total_samples st = length (concat blks)" using tot by (simp add: i)
  have "take (total_samples st) (buf st) = map Some (concat blks)" using tk by (simp add: i)
  then show "decoded st = concat blks" by (simp add: decoded_def map_filter_Some)
qed

lemma extract_mp3_samples_result:
  assumes "init_ok dec" "new_ok dec" "open_ok dec" "getformat dec = Some (rate, ch)"
    "malloc_buffer_ok dec" "malloc_samples_ok dec"
    and r: "0 \<le> rate * ch" "rate * ch \<le> 2 ^ 59"
    and s: "length (concat (reads dec)) \<le> 2 ^ 60"
    and run: "read_all (realloc_ok dec) (pcm_init rate ch) (reads dec) = Inr st"
  shows "extract_mp3_samples dec =
     Inr ([SampleRate rate, Channels ch],
          Some \<lparr>samples = concat (reads dec), num_samples = length (concat (reads dec)),
                sample_rate = rate, channels = ch\<rparr>)"
proof -
  define q where "q = rate * ch"
  have q: "0 \<le> q" "q \<le> 2 ^ 59" using r by (simp_all only: q_def)
  have "\<not> (q < - (2 ^ 63) \<or> 2 ^ 63 \<le> q \<or> q * 2 < - (2 ^ 63) \<or> 2 ^ 63 \<le> q * 2)"
    using q by simp
  then have g: "\<not> (rate * ch < - (2 ^ 63) \<or> 2 ^ 63 \<le> rate * ch
                  \<or> rate * ch * 2 < - (2 ^ 63) \<or> 2 ^ 63 \<le> rate * ch * 2)"
    unfolding q_def .
  have g': "(rate * ch < - (2 ^ 63) \<or> 2 ^ 63 \<le> rate * ch
                  \<or> rate * ch * 2 < - (2 ^ 63) \<or> 2 ^ 63 \<le> rate * ch * 2) = False"
    using g by (simp only: simp_thms)
  have t: "init_ok dec = True" "new_ok dec = True" "open_ok dec = True"
    "malloc_buffer_ok dec = True" "malloc_samples_ok dec = True"
    using assms(1,2,3,5,6) by (simp_all only: simp_thms)
  show ?thesis
    by (simp only: extract_mp3_samples_def t assms(4) g' run decoded_run [OF r s run]
        simp_thms if_False option.case prod.case sum.case)
qed

text \<open>With fewer samples than one hop the loop test fails at once.\<close>

lemma hop_loop_short:
  "n2 < hopsize \<Longrightarrow> hop_loop fft hopsize n2 left 0 st = Inr st"
  by (subst hop_loop.simps) (simp add: hopsize_def INT_MAX_def)

text \<open>
  C10.  A run of main on a decoding that ends without a fault and delivers fewer than
  two hops' worth of interleaved samples (so that half their number is below the hop
  length), with every allocation, the plan and both clock readings succeeding.  The
  program prints the sample rate, the channel count, the number of samples, the
  duration \<open>samples / channels / rate\<close> and the elapsed time
  \<open>(s1 - s0) + (n1 - n0) / 1e9\<close>, each computed in double, and returns 0; the
  transform was never called, \<open>in\<close> and \<open>out\<close> are as allocated, and no entry of
  the result array was written.
\<close>

theorem short_input_no_hops:
  "argc = 2 \<Longrightarrow> init_ok dec \<Longrightarrow> new_ok dec \<Longrightarrow> open_ok dec \<Longrightarrow>
   getformat dec = Some (rate, ch) \<Longrightarrow> malloc_buffer_ok dec \<Longrightarrow> malloc_samples_ok dec \<Longrightarrow>
   0 \<le> rate * ch \<Longrightarrow> rate * ch \<le> 2 ^ 59 \<Longrightarrow>
   read_all (realloc_ok dec) (pcm_init rate ch) (reads dec) = Inr st \<Longrightarrow>
   length (concat (reads dec)) div 2 < hopsize \<Longrightarrow>
   malloc_left_ok ev \<Longrightarrow> clock_start ev = Some (s0, n0) \<Longrightarrow> malloc_in_ok ev \<Longrightarrow>
   alloc_freq_ok ev \<Longrightarrow> fftw_malloc_ok ev \<Longrightarrow> plan_ok ev \<Longrightarrow>
   clock_end ev = Some (s1, n1) \<Longrightarrow>
   main fft dec ev argc =
     Inr ([SampleRate rate, Channels ch,
           ExtractedSamples (length (concat (reads dec))),
           Duration (ddiv (ddiv (dbl (real (length (concat (reads dec)))))
                             (to_double (real_of_int ch)))
                       (to_double (real_of_int rate))),
           LoopTook (dadd (dbl (real_of_int (s1 - s0)))
                       (ddiv (dbl (real_of_int (n1 - n0))) 1000000000))],
          0,
          Some \<lparr>in_buf = in_fresh ev, out_buf = out_fresh ev,
                freqArr = replicate (length (concat (reads dec)) div 2) None,
                executed = []\<rparr>)"
proof -
  assume argc: "argc = 2"
    and d: "init_ok dec" "new_ok dec" "open_ok dec" "getformat dec = Some (rate, ch)"
      "malloc_buffer_ok dec" "malloc_samples_ok dec"
    and r: "0 \<le> rate * ch" "rate * ch \<le> 2 ^ 59"
    and run: "read_all (realloc_ok dec) (pcm_init rate ch) (reads dec) = Inr st"
    and short: "length (concat (reads dec)) div 2 < hopsize"
    and ev: "malloc_left_ok ev" "clock_start ev = Some (s0, n0)" "malloc_in_ok ev"
      "alloc_freq_ok ev" "fftw_malloc_ok ev" "plan_ok ev" "clock_end ev = Some (s1, n1)"
  let ?T = "length (concat (reads dec))"
  let ?a = "\<lparr>samples = concat (reads dec), num_samples = ?T,
                sample_rate = rate, channels = ch\<rparr>"
  have "?T < 2 * hopsize + 2" using short by linarith
  then have "?T < 2 ^ 60" by (simp add: hopsize_def)
  then have s: "?T \<le> 2 ^ 60" by linarith
  have ex: "extract_mp3_samples dec = Inr ([SampleRate rate, Channels ch], Some ?a)"
    by (rule extract_mp3_samples_result [OF d r s run])
  have left: "leftChanelSamples ?a =
      Inr (map (\<lambda>i. real_of_int (sint (samples ?a ! (2 * i)))) [0..<num_samples ?a div 2])"
    by (rule leftChanelSamples_stride_two) simp
  have loop: "hop_loop fft hopsize (?T div 2) left 0 st' = Inr st'" for left st'
    using short by (rule hop_loop_short)
  show ?thesis
    using argc ev
    by (simp add: main_def ex left loop Let_def duration_def elapsed_def)
qed

lemma duration_value:
  "ddiv (ddiv (dbl 4) (to_double 2)) (to_double 44100)
     = Finite (6692696262570359 / 147573952589676412928)"
proof -
  have a: "dbl 4 = Finite 4" using dbl_of_int [of 4] by simp
  have b: "to_double 2 = 2" using to_double_of_int [of 2] by simp
  have c: "to_double 44100 = 44100" using to_double_of_int [of 44100] by simp
  have d: "dbl 2 = Finite 2" using dbl_of_int [of 2] by simp
  have "round_to 53 (- 1022) (1 / 22050)
      = of_int 6692696262570359 * (1 / 147573952589676412928)"
    by (rule round_to_near [where l = "- 15"]) (simp_all add: powr_minus_divide)
  then have "to_double (1 / 22050) = 6692696262570359 / 147573952589676412928"
    by (simp add: to_double_def)
  then have e: "dbl (1 / 22050) = Finite (6692696262570359 / 147573952589676412928)"
    by (rule dbl_value) (rule small_1022, simp)
  show ?thesis by (simp add: a b c d e)
qed

lemma elapsed_value:
  "dadd (dbl 2) (ddiv (dbl 500000000) 1000000000) = Finite (5 / 2)"
proof -
  have a: "dbl 2 = Finite 2" using dbl_of_int [of 2] by simp
  have b: "dbl 500000000 = Finite 500000000" using dbl_of_int [of 500000000] by simp
  have "to_double (1 / 2) = 1 / 2"
    by (rule to_double_exact [where s = 1 and e = "- 1"]) (simp_all add: powr_minus_divide)
  then have c: "dbl (1 / 2) = Finite (1 / 2)"
    by (rule dbl_value) (rule small_1022, simp)
  have "to_double (5 / 2) = 5 / 2"
    by (rule to_double_exact [where s = 5 and e = "- 1"]) (simp_all add: powr_minus_divide)
  then have d: "dbl (5 / 2) = Finite (5 / 2)"
    by (rule dbl_value) (rule small_1022, simp)
  show ?thesis by (simp add: a b c d)
qed

theorem short_input_no_hops_witness:
  "main dft_r2c
     \<lparr>init_ok = True, new_ok = True, open_ok = True, getformat = Some (44100, 2),
      outblock = 4608, malloc_buffer_ok = True, malloc_samples_ok = True,
      realloc_ok = (\<lambda>b. True), reads = [[10, 20], [30, 40]]\<rparr>
     \<lparr>malloc_left_ok = True, clock_start = Some (5, 0), malloc_in_ok = True,
      alloc_freq_ok = True, fftw_malloc_ok = True, plan_ok = True,
      clock_end = Some (7, 500000000), in_fresh = [], out_fresh = []\<rparr>
     2
   = Inr ([SampleRate 44100, Channels 2, ExtractedSamples 4,
           Duration (Finite (6692696262570359 / 147573952589676412928)),
           LoopTook (Finite (5 / 2))],
          0,
          Some \<lparr>in_buf = [], out_buf = [], freqArr = [None, None], executed = []\<rparr>)"
proof -
  let ?dec = "\<lparr>init_ok = True, new_ok = True, open_ok = True, getformat = Some (44100, 2),
      outblock = 4608, malloc_buffer_ok = True, malloc_samples_ok = True,
      realloc_ok = (\<lambda>b::nat. True), reads = [[10, 20], [30, 40 :: 16 word]]\<rparr>"
  let ?ev = "\<lparr>malloc_left_ok = True, clock_start = Some (5, 0), malloc_in_ok = True,
      alloc_freq_ok = True, fftw_malloc_ok = True, plan_ok = True,
      clock_end = Some (7, 500000000), in_fresh = [], out_fresh = []\<rparr>"
  have i: "pcm_init 44100 2 = \<lparr>buf = replicate (nat (44100 * 2 * 2)) None,
                          capacity = nat (44100 * 2 * 2), total_samples = 0\<rparr>"
    by (rule pcm_init_small) simp_all
  have "\<exists>st. read_all (\<lambda>b. True) (pcm_init 44100 2) [[10, 20], [30, 40]] = Inr st"
    by (rule read_all_total [where B = "2 ^ 60"]) (simp_all add: i)
  then obtain st where
    run: "read_all (realloc_ok ?dec) (pcm_init 44100 2) (reads ?dec) = Inr st"
    by auto
  have h: "main dft_r2c ?dec ?ev 2 =
     Inr ([SampleRate 44100, Channels 2,
           ExtractedSamples (length (concat (reads ?dec))),
           Duration (ddiv (ddiv (dbl (real (length (concat (reads ?dec)))))
                             (to_double (real_of_int 2)))
                       (to_double (real_of_int 44100))),
           LoopTook (dadd (dbl (real_of_int (7 - 5)))
                       (ddiv (dbl (real_of_int (500000000 - 0))) 1000000000))],
          0,
          Some \<lparr>in_buf = in_fresh ?ev, out_buf = out_fresh ?ev,
                freqArr = replicate (length (concat (reads ?dec)) div 2) None,
                executed = []\<rparr>)"
    by (rule short_input_no_hops [where st = st, OF _ _ _ _ _ _ _ _ _ run])
       (simp_all add: hopsize_def)
  have l: "length (concat (reads ?dec)) = 4" by simp
  show ?thesis
    unfolding h l by (simp add: duration_value elapsed_value replicate_2)
qed

end
